theory Spec2Isabelle
  imports Main
begin

section \<open>Data model\<close>

text \<open>
  The dataclass \<^verbatim>\<open>ScrapedItem\<close> of \<^verbatim>\<open>src/main.py\<close>. Python strings are modelled as
  \<^typ>\<open>string\<close>.
\<close>

record ScrapedItem =
  title :: string
  description :: string
  url :: string

text \<open>
  Exceptions that can leave a function of the program. \<^verbatim>\<open>URLError\<close>,
  \<^verbatim>\<open>UnicodeDecodeError\<close> and \<^verbatim>\<open>ValueError\<close> come out of \<^verbatim>\<open>RobotFileParser.read\<close>,
  \<^verbatim>\<open>KeyError\<close> out of a subscript on a tag, and \<^verbatim>\<open>OtherError\<close> stands for whatever
  \<^verbatim>\<open>session.get\<close> or \<^verbatim>\<open>response.text()\<close> raise that is not an \<^verbatim>\<open>aiohttp.ClientError\<close>.
\<close>

datatype exn = URLError | UnicodeDecodeError | ValueError | KeyError string | OtherError

text \<open>What the program does to the outside world, as far as the properties below need it.\<close>

datatype event = LogWarning string | LogError string | HttpGet string

section \<open>The exclusion policy: \<^verbatim>\<open>urllib.robotparser.RobotFileParser\<close>\<close>

text \<open>
  The program builds a \<^verbatim>\<open>RobotFileParser\<close>, calls \<^verbatim>\<open>set_url\<close> and \<^verbatim>\<open>read\<close> in the
  constructor (lines 31 to 33) and \<^verbatim>\<open>can_fetch("*", url)\<close> before every request. The class is
  part of the Python standard library; its three flags are modelled as they are, its
  time stamp \<^verbatim>\<open>last_checked\<close> as the truth value Python tests, and the outcome of matching a URL
  against the parsed entries for the agent \<^verbatim>\<open>*\<close> as the function \<open>entries_allow\<close>.
\<close>

record RobotFileParser =
  disallow_all :: bool
  allow_all :: bool
  last_checked :: bool
  entries_allow :: "string \<Rightarrow> bool"

text \<open>
  \<^verbatim>\<open>RobotFileParser.__init__\<close>: no entry and no default entry, for which the matching at the
  end of \<^verbatim>\<open>can_fetch\<close> answers \<^verbatim>\<open>True\<close> ("agent not found ==> access granted").
\<close>

definition RobotFileParser_init :: RobotFileParser where
  "RobotFileParser_init =
     \<lparr>disallow_all = False, allow_all = False, last_checked = False,
      entries_allow = (\<lambda>u. True)\<rparr>"

text \<open>
  What \<^verbatim>\<open>urllib.request.urlopen(self.url)\<close> followed by \<^verbatim>\<open>f.read()\<close> and
  \<^verbatim>\<open>raw.decode("utf-8")\<close> can do: raise a \<^verbatim>\<open>URLError\<close> that is not an \<^verbatim>\<open>HTTPError\<close>
  (DNS, connection), raise an \<^verbatim>\<open>HTTPError\<close> with a status code, or return a body, which
  is \<open>None\<close> here when the bytes are not valid UTF-8.
\<close>

datatype urlopen_result = Raises_URLError | Raises_HTTPError int | Returns "string option"

text \<open>
  \<^verbatim>\<open>RobotFileParser.read\<close>:
  \<^verbatim>\<open>
    try:
        f = urllib.request.urlopen(self.url)
    except urllib.error.HTTPError as err:
        if err.code in (401, 403):
            self.disallow_all = True
        elif err.code >= 400 and err.code < 500:
            self.allow_all = True
    else:
        raw = f.read()
        self.parse(raw.decode("utf-8").splitlines())
  \<close>
  \<^verbatim>\<open>parse\<close> sets \<^verbatim>\<open>last_checked\<close> and fills the entries. It skips the lines it does not
  understand, but it raises \<^verbatim>\<open>ValueError\<close> on some rule lines of a group: a path that
  \<^verbatim>\<open>urllib.parse.urlparse\<close> refuses, as in \<^verbatim>\<open>Disallow: //[\<close>, or a \<^verbatim>\<open>Crawl-delay\<close> made of
  digits that \<^verbatim>\<open>int\<close> refuses. Neither \<^verbatim>\<open>read\<close> nor the constructor catches it. The
  parameter \<open>rules\<close> maps the text of the document to \<open>None\<close> when \<^verbatim>\<open>parse\<close> raises on
  it, and otherwise to the decision its entries give for the agent \<^verbatim>\<open>*\<close>.
\<close>

definition read :: "(string \<Rightarrow> (string \<Rightarrow> bool) option) \<Rightarrow> urlopen_result \<Rightarrow> RobotFileParser
    \<Rightarrow> exn + RobotFileParser" where
  "read rules res rp =
     (case res of
        Raises_URLError \<Rightarrow> Inl URLError
      | Raises_HTTPError code \<Rightarrow>
          if code = 401 \<or> code = 403 then Inr (rp\<lparr>disallow_all := True\<rparr>)
          else if code \<ge> 400 \<and> code < 500 then Inr (rp\<lparr>allow_all := True\<rparr>)
          else Inr rp
      | Returns None \<Rightarrow> Inl UnicodeDecodeError
      | Returns (Some text) \<Rightarrow>
          (case rules text of
             None \<Rightarrow> Inl ValueError
           | Some allow \<Rightarrow> Inr (rp\<lparr>last_checked := True, entries_allow := allow\<rparr>)))"

text \<open>\<^verbatim>\<open>RobotFileParser.can_fetch("*", url)\<close>.\<close>

definition can_fetch :: "RobotFileParser \<Rightarrow> string \<Rightarrow> bool" where
  "can_fetch rp u =
     (if disallow_all rp then False
      else if allow_all rp then True
      else if \<not> last_checked rp then False
      else entries_allow rp u)"

section \<open>The store: table \<^verbatim>\<open>scraped_items\<close>\<close>

text \<open>
  A row of the table created by \<^verbatim>\<open>_setup_database\<close>: the three columns of an item and the
  \<^verbatim>\<open>INTEGER PRIMARY KEY AUTOINCREMENT\<close> column \<^verbatim>\<open>id\<close>. The table is the list of its rows
  in ascending \<^verbatim>\<open>id\<close>, with the counter SQLite keeps for \<^verbatim>\<open>AUTOINCREMENT\<close>.
\<close>

record db_row = ScrapedItem +
  rowid :: nat

record database =
  rows :: "db_row list"
  seq :: nat

definition empty_database :: database where
  "empty_database = \<lparr>rows = [], seq = 0\<rparr>"

text \<open>
  \<^verbatim>\<open>_setup_database\<close>: \<^verbatim>\<open>CREATE TABLE IF NOT EXISTS\<close>. The file \<^verbatim>\<open>scraped_data.db\<close> either
  has no table yet (\<open>None\<close>) or holds the table of an earlier run.
\<close>

definition setup_database :: "database option \<Rightarrow> database" where
  "setup_database f = (case f of None \<Rightarrow> empty_database | Some db \<Rightarrow> db)"

text \<open>
  \<^verbatim>\<open>_save_to_database\<close>: \<^verbatim>\<open>INSERT OR REPLACE INTO scraped_items (title, description, url)\<close>.
  The only constraint the new row can violate is \<^verbatim>\<open>url TEXT UNIQUE\<close>, since \<^verbatim>\<open>id\<close> is
  generated: the rows with the same \<^verbatim>\<open>url\<close> are deleted and the new row is inserted under
  an \<^verbatim>\<open>id\<close> one above the largest ever used.
\<close>

definition next_rowid :: "database \<Rightarrow> nat" where
  "next_rowid db = Suc (fold max (map rowid (rows db)) (seq db))"

definition save_to_database :: "database \<Rightarrow> ScrapedItem \<Rightarrow> database" where
  "save_to_database db item =
     (let n = next_rowid db in
      \<lparr>rows = filter (\<lambda>r. url r \<noteq> url item) (rows db)
               @ [\<lparr>title = title item, description = description item, url = url item,
                   rowid = n\<rparr>],
       seq = n\<rparr>)"

text \<open>\<^verbatim>\<open>SELECT title, description FROM scraped_items WHERE url = ?\<close>.\<close>

definition select_by_url :: "database \<Rightarrow> string \<Rightarrow> (string \<times> string) list" where
  "select_by_url db u = map (\<lambda>r. (title r, description r)) (filter (\<lambda>r. url r = u) (rows db))"

section \<open>Fetching\<close>

text \<open>
  What \<^verbatim>\<open>session.get(url)\<close> with \<^verbatim>\<open>response.text()\<close> does for a URL: a response with its
  status code and body, an \<^verbatim>\<open>aiohttp.ClientError\<close> (for \<^verbatim>\<open>requests\<close>, a
  \<^verbatim>\<open>RequestException\<close>), or another exception.
\<close>

datatype http_outcome = Response nat string | ClientError | Unhandled

text \<open>
  \<^verbatim>\<open>async_fetch_page\<close> (lines 77 to 87) runs in two parts. Up to its first suspension it
  asks the policy and either returns \<^verbatim>\<open>None\<close> with a warning, or issues the GET and waits.
\<close>

definition fetch_begin :: "RobotFileParser \<Rightarrow> string \<Rightarrow> event list \<times> (string option) option" where
  "fetch_begin rp u =
     (if \<not> can_fetch rp u then ([LogWarning u], Some None) else ([HttpGet u], None))"

text \<open>
  When the request resolves, the body is returned whatever the status code is: there is no
  call of \<^verbatim>\<open>raise_for_status\<close> on this path.
\<close>

definition fetch_resume :: "string \<Rightarrow> http_outcome \<Rightarrow> event list \<times> (exn + string option)" where
  "fetch_resume u out =
     (case out of
        Response status body \<Rightarrow> ([], Inr (Some body))
      | ClientError \<Rightarrow> ([LogError u], Inr None)
      | Unhandled \<Rightarrow> ([], Inl OtherError))"

definition async_fetch_page :: "RobotFileParser \<Rightarrow> (string \<Rightarrow> http_outcome) \<Rightarrow> string
    \<Rightarrow> event list \<times> (exn + string option)" where
  "async_fetch_page rp net u =
     (case fetch_begin rp u of
        (evs, Some r) \<Rightarrow> (evs, Inr r)
      | (evs, None) \<Rightarrow> (case fetch_resume u (net u) of (evs', r) \<Rightarrow> (evs @ evs', r)))"

text \<open>
  The synchronous \<^verbatim>\<open>fetch_page\<close> (lines 53 to 64). \<^verbatim>\<open>response.raise_for_status()\<close> raises
  an \<^verbatim>\<open>HTTPError\<close>, which is a \<^verbatim>\<open>RequestException\<close>, for the codes 400 to 599.
\<close>

definition fetch_page :: "RobotFileParser \<Rightarrow> (string \<Rightarrow> http_outcome) \<Rightarrow> string
    \<Rightarrow> event list \<times> (exn + string option)" where
  "fetch_page rp net u =
     (if \<not> can_fetch rp u then ([LogWarning u], Inr None)
      else case net u of
        Response status body \<Rightarrow>
          if 400 \<le> status \<and> status < 600 then ([HttpGet u, LogError u], Inr None)
          else ([HttpGet u], Inr (Some body))
      | ClientError \<Rightarrow> ([HttpGet u, LogError u], Inr None)
      | Unhandled \<Rightarrow> ([HttpGet u], Inl OtherError))"

section \<open>Extraction\<close>

text \<open>
  The tree \<^verbatim>\<open>BeautifulSoup(html, 'html.parser')\<close> builds: tags with a name, a dictionary of
  attributes and children, and strings. A soup is the list of the children of its root.
\<close>

datatype node =
    Tag (tag_name: string) (tag_attrs: "string \<rightharpoonup> string") (tag_contents: "node list")
  | NavigableString string

text \<open>The tags of a subtree in document order, which is the order \<^verbatim>\<open>find\<close> searches in.\<close>

fun tags :: "node \<Rightarrow> node list" where
  "tags (NavigableString s) = []"
| "tags (Tag n a cs) = Tag n a cs # concat (map tags cs)"

text \<open>\<^verbatim>\<open>.text\<close>: the strings below a node, concatenated.\<close>

fun get_text :: "node \<Rightarrow> string" where
  "get_text (NavigableString s) = s"
| "get_text (Tag n a cs) = concat (map get_text cs)"

text \<open>\<^verbatim>\<open>soup.find(name, attrs=...)\<close>: the first tag with that name and those attribute values.\<close>

definition soup_find :: "string \<Rightarrow> (string \<times> string) list \<Rightarrow> node list \<Rightarrow> node option" where
  "soup_find n req soup =
     find (\<lambda>t. tag_name t = n \<and> list_all (\<lambda>(k, v). tag_attrs t k = Some v) req)
       (concat (map tags soup))"

text \<open>\<^verbatim>\<open>str.strip()\<close> removes the white space at both ends.\<close>

definition isspace :: "char \<Rightarrow> bool" where
  "isspace c = (let n = (of_char c :: nat) in (9 \<le> n \<and> n \<le> 13) \<or> (28 \<le> n \<and> n \<le> 32)
      \<or> n = 133 \<or> n = 160)"

definition strip :: "string \<Rightarrow> string" where
  "strip s = rev (dropWhile isspace (rev (dropWhile isspace s)))"

text \<open>
  \<^verbatim>\<open>extract_data\<close> (lines 69 to 75). A tag is true in a condition, so both conditions
  test whether \<^verbatim>\<open>find\<close> returned \<^verbatim>\<open>None\<close>. \<^verbatim>\<open>description['content']\<close> raises
  \<^verbatim>\<open>KeyError\<close> when the tag has no such attribute.
\<close>

definition extract_data :: "node list \<Rightarrow> string \<Rightarrow> exn + ScrapedItem" where
  "extract_data soup u =
     (let t = (case soup_find ''h1'' [] soup of Some h \<Rightarrow> strip (get_text h) | None \<Rightarrow> '''') in
      case soup_find ''meta'' [(''name'', ''description'')] soup of
        None \<Rightarrow> Inr \<lparr>title = t, description = '''', url = u\<rparr>
      | Some m \<Rightarrow>
          (case tag_attrs m ''content'' of
             None \<Rightarrow> Inl (KeyError ''content'')
           | Some d \<Rightarrow> Inr \<lparr>title = t, description = d, url = u\<rparr>))"

section \<open>CSV export\<close>

text \<open>
  \<^verbatim>\<open>export_to_csv\<close> (lines 113 to 119) writes through a \<^verbatim>\<open>csv.DictWriter\<close> with the field
  names \<^verbatim>\<open>title\<close>, \<^verbatim>\<open>description\<close>, \<^verbatim>\<open>url\<close> and the default dialect \<^verbatim>\<open>excel\<close>:
  delimiter comma, quote character \<^verbatim>\<open>"\<close>, doubled inside a field, minimal quoting, line
  terminator CR LF, no escape character. The file is opened with \<^verbatim>\<open>newline=''\<close>, so what
  the writer produces is what the file holds.
\<close>

abbreviation (input) CR :: char where "CR \<equiv> CHR 0x0D"
abbreviation (input) LF :: char where "LF \<equiv> CHR 0x0A"
abbreviation (input) DQUOTE :: char where "DQUOTE \<equiv> CHR 0x22"
abbreviation (input) COMMA :: char where "COMMA \<equiv> CHR 0x2C"

text \<open>
  The characters that make the writer quote a field: the delimiter, the quote character
  and the characters of the line terminator.
\<close>

definition csv_special :: "char \<Rightarrow> bool" where
  "csv_special c = (c = COMMA \<or> c = DQUOTE \<or> c = CR \<or> c = LF)"

definition double_quotes :: "string \<Rightarrow> string" where
  "double_quotes f = concat (map (\<lambda>c. if c = DQUOTE then [DQUOTE, DQUOTE] else [c]) f)"

text \<open>One field as the writer appends it to the record.\<close>

definition join_append_data :: "string \<Rightarrow> string" where
  "join_append_data f =
     (if list_ex csv_special f then DQUOTE # double_quotes f @ [DQUOTE] else double_quotes f)"

fun join_fields :: "string list \<Rightarrow> string" where
  "join_fields [] = []"
| "join_fields [f] = f"
| "join_fields (f # g # fs) = f @ COMMA # join_fields (g # fs)"

definition writerow :: "string list \<Rightarrow> string" where
  "writerow row = join_fields (map join_append_data row) @ [CR, LF]"

definition fieldnames :: "string list" where
  "fieldnames = [''title'', ''description'', ''url'']"

text \<open>\<^verbatim>\<open>asdict(item)\<close> read in the order of the field names.\<close>

definition dict_to_list :: "ScrapedItem \<Rightarrow> string list" where
  "dict_to_list item = [title item, description item, url item]"

definition export_to_csv :: "ScrapedItem list \<Rightarrow> string" where
  "export_to_csv data = writerow fieldnames @ concat (map (\<lambda>item. writerow (dict_to_list item)) data)"

section \<open>The pipeline\<close>

text \<open>\<^verbatim>\<open>str\<close> of an integer, as the f-string of line 90 renders the page number.\<close>

definition digit_char :: "nat \<Rightarrow> char" where
  "digit_char d = ''0123456789'' ! d"

fun str_nat :: "nat \<Rightarrow> string" where
  "str_nat n = (if n < 10 then [digit_char n] else str_nat (n div 10) @ [digit_char (n mod 10)])"

declare str_nat.simps [simp del]

definition str_int :: "int \<Rightarrow> string" where
  "str_int i = (if i < 0 then CHR ''-'' # str_nat (nat (- i)) else str_nat (nat i))"

text \<open>Line 90: \<^verbatim>\<open>[f"{self.base_url}/page/{page}" for page in range(1, max_pages + 1)]\<close>.\<close>

definition page_urls :: "string \<Rightarrow> int \<Rightarrow> string list" where
  "page_urls base max_pages = map (\<lambda>page. base @ ''/page/'' @ str_int page) [1..max_pages]"

text \<open>
  \<^verbatim>\<open>asyncio.gather(*tasks)\<close> as a function of what the tasks return: the list of the results
  in the order of the tasks, or the exception of a task that raised. The interleaving of
  the tasks is modelled further down, where this function is shown to give the result of
  every schedule.
\<close>

fun gather :: "(exn + 'a) list \<Rightarrow> exn + 'a list" where
  "gather [] = Inr []"
| "gather (Inl e # rs) = Inl e"
| "gather (Inr x # rs) = (case gather rs of Inl e \<Rightarrow> Inl e | Inr xs \<Rightarrow> Inr (x # xs))"

text \<open>
  The loop of lines 95 to 101 over \<^verbatim>\<open>zip(urls, pages)\<close>. \<^verbatim>\<open>if html:\<close> is false for
  \<^verbatim>\<open>None\<close> and for the empty string. An exception of \<^verbatim>\<open>extract_data\<close> is not caught;
  the rows committed before it stay in the store.
\<close>

fun scrape_loop :: "(string \<Rightarrow> node list) \<Rightarrow> (string \<times> string option) list \<Rightarrow> ScrapedItem list
    \<Rightarrow> database \<Rightarrow> (exn + ScrapedItem list) \<times> database" where
  "scrape_loop parse_page [] all_data db = (Inr all_data, db)"
| "scrape_loop parse_page ((u, html) # rest) all_data db =
     (case html of
        None \<Rightarrow> scrape_loop parse_page rest all_data db
      | Some h \<Rightarrow>
          if h = [] then scrape_loop parse_page rest all_data db
          else (case extract_data (parse_page h) u of
                  Inl e \<Rightarrow> (Inl e, db)
                | Inr item \<Rightarrow>
                    scrape_loop parse_page rest (all_data @ [item]) (save_to_database db item)))"

text \<open>
  The world the program runs in: what the server answers for \<^verbatim>\<open>robots.txt\<close>, what
  parsing a document gives (\<open>None\<close> when it raises, else how its rules decide a URL), what
  the server answers for each page, the HTML parser, and the database file found at start.
\<close>

record world =
  robots_txt :: urlopen_result
  robots_rules :: "string \<Rightarrow> (string \<Rightarrow> bool) option"
  http :: "string \<Rightarrow> http_outcome"
  html_parser :: "string \<Rightarrow> node list"
  db_file :: "database option"

record WebScraper =
  base_url :: string
  robot_parser :: RobotFileParser
  db_connection :: database

text \<open>\<^verbatim>\<open>WebScraper.__init__\<close> (lines 24 to 35).\<close>

definition WebScraper_init :: "world \<Rightarrow> string \<Rightarrow> exn + WebScraper" where
  "WebScraper_init w base =
     (case read (robots_rules w) (robots_txt w) RobotFileParser_init of
        Inl e \<Rightarrow> Inl e
      | Inr rp \<Rightarrow>
          Inr \<lparr>base_url = base, robot_parser = rp, db_connection = setup_database (db_file w)\<rparr>)"

text \<open>The list \<^verbatim>\<open>pages\<close> of line 93.\<close>

definition fetch_pages :: "world \<Rightarrow> WebScraper \<Rightarrow> string list \<Rightarrow> exn + string option list" where
  "fetch_pages w s urls = gather (map (\<lambda>u. snd (async_fetch_page (robot_parser s) (http w) u)) urls)"

text \<open>\<^verbatim>\<open>async_scrape\<close> (lines 89 to 103): the returned list, or the exception, and the store.\<close>

definition async_scrape :: "world \<Rightarrow> WebScraper \<Rightarrow> int \<Rightarrow> (exn + ScrapedItem list) \<times> database" where
  "async_scrape w s max_pages =
     (let urls = page_urls (base_url s) max_pages in
      case fetch_pages w s urls of
        Inl e \<Rightarrow> (Inl e, db_connection s)
      | Inr pages \<Rightarrow> scrape_loop (html_parser w) (zip urls pages) [] (db_connection s))"

text \<open>
  \<^verbatim>\<open>main\<close> (lines 125 to 138): the exit code of the process, the CSV file it leaves and the
  list it printed the length of. An exception that reaches the top ends the process with
  exit code 1.
\<close>

record run_result =
  exit_code :: nat
  results :: "ScrapedItem list"
  csv_file :: "string option"

definition main :: "world \<Rightarrow> run_result" where
  "main w =
     (case WebScraper_init w ''https://example.com'' of
        Inl e \<Rightarrow> \<lparr>exit_code = 1, results = [], csv_file = None\<rparr>
      | Inr scraper \<Rightarrow>
          (case fst (async_scrape w scraper 5) of
             Inl e \<Rightarrow> \<lparr>exit_code = 1, results = [], csv_file = None\<rparr>
           | Inr res \<Rightarrow> \<lparr>exit_code = 0, results = res, csv_file = Some (export_to_csv res)\<rparr>))"

section \<open>The concurrent fetch phase\<close>

text \<open>
  Lines 92 and 93 create one coroutine per URL and hand them all to \<^verbatim>\<open>asyncio.gather\<close>, which
  wraps each in a task. A task runs until it returns or suspends; the only suspension of
  \<^verbatim>\<open>async_fetch_page\<close> is the request. The event loop is modelled by a step relation on the
  list of the task states, in the order of the URLs, and the events so far: any pending
  task may run its first part, and any request in flight may resolve, in any order.
\<close>

datatype task = Pending | InFlight | Finished "exn + string option"

inductive gather_step :: "RobotFileParser \<Rightarrow> (string \<Rightarrow> http_outcome) \<Rightarrow> string list
    \<Rightarrow> task list \<times> event list \<Rightarrow> task list \<times> event list \<Rightarrow> bool"
  for rp :: RobotFileParser and net :: "string \<Rightarrow> http_outcome" and urls :: "string list" where
  returns:
    "i < length urls \<Longrightarrow> ts ! i = Pending \<Longrightarrow> fetch_begin rp (urls ! i) = (evs, Some r)
     \<Longrightarrow> gather_step rp net urls (ts, tr) (ts[i := Finished (Inr r)], tr @ evs)"
| suspends:
    "i < length urls \<Longrightarrow> ts ! i = Pending \<Longrightarrow> fetch_begin rp (urls ! i) = (evs, None)
     \<Longrightarrow> gather_step rp net urls (ts, tr) (ts[i := InFlight], tr @ evs)"
| resumes:
    "i < length urls \<Longrightarrow> ts ! i = InFlight \<Longrightarrow> fetch_resume (urls ! i) (net (urls ! i)) = (evs, r)
     \<Longrightarrow> gather_step rp net urls (ts, tr) (ts[i := Finished r], tr @ evs)"

text \<open>The states a run of the fetch phase can be in.\<close>

inductive gather_reach :: "RobotFileParser \<Rightarrow> (string \<Rightarrow> http_outcome) \<Rightarrow> string list
    \<Rightarrow> task list \<times> event list \<Rightarrow> bool"
  for rp :: RobotFileParser and net :: "string \<Rightarrow> http_outcome" and urls :: "string list" where
  start: "gather_reach rp net urls (replicate (length urls) Pending, [])"
| step: "gather_reach rp net urls st \<Longrightarrow> gather_step rp net urls st st'
     \<Longrightarrow> gather_reach rp net urls st'"

text \<open>The number of requests that have been issued and have not resolved.\<close>

definition in_flight :: "task list \<Rightarrow> nat" where
  "in_flight ts = length (filter (\<lambda>t. t = InFlight) ts)"

text \<open>What the tasks returned, once every one of them is done.\<close>

fun task_results :: "task list \<Rightarrow> (exn + string option) list option" where
  "task_results [] = Some []"
| "task_results (Finished r # ts) = map_option ((#) r) (task_results ts)"
| "task_results (Pending # ts) = None"
| "task_results (InFlight # ts) = None"

section \<open>Reading a CSV file back\<close>

text \<open>
  The program only writes the file. Parsing it back is done with the reader of the same
  module and dialect: \<^verbatim>\<open>csv.reader\<close> over the file opened with \<^verbatim>\<open>newline=''\<close>, and
  \<^verbatim>\<open>csv.DictReader\<close> on top of it. The file object yields the lines with their line ends,
  a line ending at \<^verbatim>\<open>\n\<close>, at \<^verbatim>\<open>\r\n\<close> or at a lone \<^verbatim>\<open>\r\<close>.
\<close>

fun split_lines :: "string \<Rightarrow> string \<Rightarrow> string list" where
  "split_lines cur [] = (if cur = [] then [] else [cur])"
| "split_lines cur (c # cs) =
     (if c = LF then (cur @ [LF]) # split_lines [] cs
      else if c = CR then
        (case cs of
           [] \<Rightarrow> [cur @ [CR]]
         | d # ds \<Rightarrow>
             if d = LF then (cur @ [CR, LF]) # split_lines [] ds
             else (cur @ [CR]) # split_lines [] (d # ds))
      else split_lines (cur @ [c]) cs)"

definition readlines :: "string \<Rightarrow> string list" where
  "readlines s = split_lines [] s"

text \<open>
  The reader is the state machine of \<^verbatim>\<open>Modules/_csv.c\<close>, with the settings of the dialect
  \<^verbatim>\<open>excel\<close> filled in (no escape character, no skipping of initial spaces, not strict),
  which leaves the states about escape characters out. It holds the state, the field being
  read and the fields of the record so far. The limit on the length of a field is a
  setting of the reading process and is not modelled.
\<close>

datatype parser_state =
  START_RECORD | START_FIELD | IN_FIELD | IN_QUOTED_FIELD | QUOTE_IN_QUOTED_FIELD | EAT_CRNL

record ReaderObj =
  state :: parser_state
  field :: string
  row_fields :: "string list"

definition parse_reset :: ReaderObj where
  "parse_reset = \<lparr>state = START_RECORD, field = [], row_fields = []\<rparr>"

definition parse_save_field :: "ReaderObj \<Rightarrow> ReaderObj" where
  "parse_save_field r = r\<lparr>row_fields := row_fields r @ [field r], field := []\<rparr>"

definition parse_add_char :: "ReaderObj \<Rightarrow> char \<Rightarrow> ReaderObj" where
  "parse_add_char r c = r\<lparr>field := field r @ [c]\<rparr>"

text \<open>
  \<^verbatim>\<open>parse_process_char\<close>. The character is \<open>None\<close> for the marker \<^verbatim>\<open>EOL\<close> that the
  reader feeds after the last character of every line. The result \<open>None\<close> is the exception
  \<^verbatim>\<open>csv.Error\<close>. The case \<^verbatim>\<open>START_RECORD\<close> falls through to \<^verbatim>\<open>START_FIELD\<close> for a character
  that does not end the line.
\<close>

definition start_field :: "ReaderObj \<Rightarrow> char option \<Rightarrow> ReaderObj option" where
  "start_field r c =
     (case c of
        None \<Rightarrow> Some ((parse_save_field r)\<lparr>state := START_RECORD\<rparr>)
      | Some ch \<Rightarrow>
          if ch = LF \<or> ch = CR then Some ((parse_save_field r)\<lparr>state := EAT_CRNL\<rparr>)
          else if ch = DQUOTE then Some (r\<lparr>state := IN_QUOTED_FIELD\<rparr>)
          else if ch = COMMA then Some (parse_save_field r)
          else Some ((parse_add_char r ch)\<lparr>state := IN_FIELD\<rparr>))"

definition parse_process_char :: "ReaderObj \<Rightarrow> char option \<Rightarrow> ReaderObj option" where
  "parse_process_char r c =
     (case state r of
        START_RECORD \<Rightarrow>
          (case c of
             None \<Rightarrow> Some r
           | Some ch \<Rightarrow>
               if ch = LF \<or> ch = CR then Some (r\<lparr>state := EAT_CRNL\<rparr>)
               else start_field (r\<lparr>state := START_FIELD\<rparr>) c)
      | START_FIELD \<Rightarrow> start_field r c
      | IN_FIELD \<Rightarrow>
          (case c of
             None \<Rightarrow> Some ((parse_save_field r)\<lparr>state := START_RECORD\<rparr>)
           | Some ch \<Rightarrow>
               if ch = LF \<or> ch = CR then Some ((parse_save_field r)\<lparr>state := EAT_CRNL\<rparr>)
               else if ch = COMMA then Some ((parse_save_field r)\<lparr>state := START_FIELD\<rparr>)
               else Some (parse_add_char r ch))
      | IN_QUOTED_FIELD \<Rightarrow>
          (case c of
             None \<Rightarrow> Some r
           | Some ch \<Rightarrow>
               if ch = DQUOTE then Some (r\<lparr>state := QUOTE_IN_QUOTED_FIELD\<rparr>)
               else Some (parse_add_char r ch))
      | QUOTE_IN_QUOTED_FIELD \<Rightarrow>
          (case c of
             None \<Rightarrow> Some ((parse_save_field r)\<lparr>state := START_RECORD\<rparr>)
           | Some ch \<Rightarrow>
               if ch = DQUOTE then Some ((parse_add_char r ch)\<lparr>state := IN_QUOTED_FIELD\<rparr>)
               else if ch = COMMA then Some ((parse_save_field r)\<lparr>state := START_FIELD\<rparr>)
               else if ch = LF \<or> ch = CR then Some ((parse_save_field r)\<lparr>state := EAT_CRNL\<rparr>)
               else Some ((parse_add_char r ch)\<lparr>state := IN_FIELD\<rparr>))
      | EAT_CRNL \<Rightarrow>
          (case c of
             None \<Rightarrow> Some (r\<lparr>state := START_RECORD\<rparr>)
           | Some ch \<Rightarrow> if ch = LF \<or> ch = CR then Some r else None))"

text \<open>The characters of one line, then the marker.\<close>

fun parse_chars :: "ReaderObj \<Rightarrow> string \<Rightarrow> ReaderObj option" where
  "parse_chars r [] = Some r"
| "parse_chars r (c # cs) =
     (case parse_process_char r (Some c) of None \<Rightarrow> None | Some r' \<Rightarrow> parse_chars r' cs)"

definition parse_line :: "ReaderObj \<Rightarrow> string \<Rightarrow> ReaderObj option" where
  "parse_line r l =
     (case parse_chars r l of None \<Rightarrow> None | Some r' \<Rightarrow> parse_process_char r' None)"

text \<open>
  \<^verbatim>\<open>Reader_iternext\<close>, called until the lines are used up: lines are consumed until the state
  is \<^verbatim>\<open>START_RECORD\<close> again, which completes a record, and the next record starts from the
  reset state. When the lines end inside a record, the record is completed if a field or a
  quoted field is open.
\<close>

fun read_lines :: "ReaderObj \<Rightarrow> string list \<Rightarrow> string list list option" where
  "read_lines r [] =
     (if field r \<noteq> [] \<or> state r = IN_QUOTED_FIELD then Some [row_fields (parse_save_field r)]
      else Some [])"
| "read_lines r (l # ls) =
     (case parse_line r l of
        None \<Rightarrow> None
      | Some r' \<Rightarrow>
          if state r' = START_RECORD
          then map_option ((#) (row_fields r')) (read_lines parse_reset ls)
          else read_lines r' ls)"

text \<open>\<^verbatim>\<open>list(csv.reader(f))\<close> for a file with the given content.\<close>

definition reader :: "string \<Rightarrow> string list list option" where
  "reader s = read_lines parse_reset (readlines s)"

text \<open>
  \<^verbatim>\<open>csv.DictReader\<close>: the first record gives the field names, empty records are skipped,
  and every other record becomes a dictionary from the names to its fields.
\<close>

definition DictReader :: "string list list \<Rightarrow> (string \<rightharpoonup> string) list" where
  "DictReader recs =
     (case recs of
        [] \<Rightarrow> []
      | names # rs \<Rightarrow> map (\<lambda>r. map_of (rev (zip names r))) (filter (\<lambda>r. r \<noteq> []) rs))"

text \<open>The tuples read back from a file, and the tuples of a list of items.\<close>

definition csv_tuples :: "string \<Rightarrow> (string option \<times> string option \<times> string option) list option" where
  "csv_tuples s =
     map_option (\<lambda>recs. map (\<lambda>d. (d ''title'', d ''description'', d ''url'')) (DictReader recs))
       (reader s)"

definition item_tuple :: "ScrapedItem \<Rightarrow> string option \<times> string option \<times> string option" where
  "item_tuple item = (Some (title item), Some (description item), Some (url item))"

section \<open>Example worlds\<close>

text \<open>
  A parser whose document was read and whose rules deny \<^verbatim>\<open>/page/3\<close>, and one whose rules
  allow every URL.
\<close>

definition policy_without_page_3 :: RobotFileParser where
  "policy_without_page_3 =
     \<lparr>disallow_all = False, allow_all = False, last_checked = True,
      entries_allow = (\<lambda>u. u \<noteq> ''https://example.com/page/3'')\<rparr>"

definition policy_allowing :: RobotFileParser where
  "policy_allowing =
     \<lparr>disallow_all = False, allow_all = False, last_checked = True,
      entries_allow = (\<lambda>u. True)\<rparr>"

text \<open>An HTML parser for the pages of the examples: the body becomes the text of one \<^verbatim>\<open>h1\<close>.\<close>

definition heading_parser :: "string \<Rightarrow> node list" where
  "heading_parser h = [Tag ''h1'' Map.empty [NavigableString h]]"

text \<open>A server that answers every page with status 200 and the body \<^verbatim>\<open>Hello\<close>.\<close>

definition hello_server :: "string \<Rightarrow> http_outcome" where
  "hello_server u = Response 200 ''Hello''"

text \<open>A server whose first page answers with status 500 and an error page.\<close>

definition world_500 :: world where
  "world_500 =
     \<lparr>robots_txt = Returns (Some []), robots_rules = (\<lambda>text. Some (\<lambda>u. True)),
      http = hello_server(''https://example.com/page/1'' := Response 500 ''Server Error''),
      html_parser = heading_parser, db_file = None\<rparr>"


text \<open>A server whose second page answers with status 200 and an empty body.\<close>

definition world_empty_body :: world where
  "world_empty_body =
     \<lparr>robots_txt = Returns (Some []), robots_rules = (\<lambda>text. Some (\<lambda>u. True)),
      http = hello_server(''https://example.com/page/2'' := Response 200 []),
      html_parser = heading_parser, db_file = None\<rparr>"

definition example_scraper :: WebScraper where
  "example_scraper =
     \<lparr>base_url = ''https://example.com'', robot_parser = policy_allowing,
      db_connection = empty_database\<rparr>"

section \<open>Auxiliary notions\<close>

text \<open>What the invariant of the fetch phase says about one task and its URL.\<close>

definition task_ok :: "RobotFileParser \<Rightarrow> (string \<Rightarrow> http_outcome) \<Rightarrow> string \<Rightarrow> task \<Rightarrow> bool" where
  "task_ok rp net u t =
     (case t of
        Pending \<Rightarrow> True
      | InFlight \<Rightarrow> can_fetch rp u
      | Finished r \<Rightarrow> r = snd (async_fetch_page rp net u))"

text \<open>The two values of a page that the test \<^verbatim>\<open>if html:\<close> rejects, identified.\<close>

definition falsy_to_None :: "string option \<Rightarrow> string option" where
  "falsy_to_None p = (if p = Some [] then None else p)"

text \<open>Reading a decimal numeral back, to show that \<open>str_nat\<close> is injective.\<close>

definition digit_val :: "char \<Rightarrow> nat" where
  "digit_val c = of_char c - 48"

definition nat_of_str :: "string \<Rightarrow> nat" where
  "nat_of_str s = foldl (\<lambda>a c. 10 * a + digit_val c) 0 s"

text \<open>
  The characters of a file as the reader meets them, with the marker after every line end;
  \<open>open_line\<close> says that the last line has no line end and so gets a marker of its own.
\<close>

fun mark_eol :: "string \<Rightarrow> char option list" where
  "mark_eol [] = []"
| "mark_eol (c # cs) =
     (if c = CR \<and> cs \<noteq> [] \<and> hd cs = LF then Some c # mark_eol cs
      else if c = CR \<or> c = LF then Some c # None # mark_eol cs
      else Some c # mark_eol cs)"

definition open_line :: "string \<Rightarrow> string \<Rightarrow> bool" where
  "open_line cur s = (if s = [] then cur \<noteq> [] else last s \<noteq> CR \<and> last s \<noteq> LF)"

definition line_tokens :: "string \<Rightarrow> char option list" where
  "line_tokens l = map Some l @ [None]"

text \<open>The reader run on the characters and markers of all lines at once.\<close>

fun run :: "ReaderObj \<Rightarrow> char option list \<Rightarrow> string list list option" where
  "run r [] =
     (if field r \<noteq> [] \<or> state r = IN_QUOTED_FIELD then Some [row_fields (parse_save_field r)]
      else Some [])"
| "run r (t # ts) =
     (case parse_process_char r t of
        None \<Rightarrow> None
      | Some r' \<Rightarrow>
          if t = None \<and> state r' = START_RECORD
          then map_option ((#) (row_fields r')) (run parse_reset ts)
          else run r' ts)"

section \<open>Lemmas\<close>

subsection \<open>The store\<close>

lemma rows_save:
  "rows (save_to_database db item) =
     filter (\<lambda>r. url r \<noteq> url item) (rows db)
       @ [\<lparr>title = title item, description = description item, url = url item,
           rowid = next_rowid db\<rparr>]"
  by (simp add: save_to_database_def Let_def)

lemma distinct_save:
  "distinct (map url (rows db)) \<Longrightarrow> distinct (map url (rows (save_to_database db item)))"
  by (auto simp: rows_save distinct_map_filter)

lemma distinct_foldl_save:
  "distinct (map url (rows db)) \<Longrightarrow> distinct (map url (rows (foldl save_to_database db items)))"
  by (induction items arbitrary: db) (simp_all add: distinct_save)

lemma select_save_same:
  "select_by_url (save_to_database db item) (url item) = [(title item, description item)]"
  by (simp add: select_by_url_def rows_save)

lemma select_save_other:
  "u \<noteq> url item \<Longrightarrow> select_by_url (save_to_database db item) u = select_by_url db u"
  by (simp add: select_by_url_def rows_save) (metis (mono_tags, lifting) filter_cong)

subsection \<open>The URL sequence\<close>

lemma digit_val_digit_char: "d < 10 \<Longrightarrow> digit_val (digit_char d) = d"
proof -
  assume "d < 10"
  then have "d \<in> {0, 1, 2, 3, 4, 5, 6, 7, 8, 9}" by auto
  then show ?thesis by (auto simp: digit_val_def digit_char_def)
qed

lemma nat_of_str_str_nat: "nat_of_str (str_nat n) = n"
proof (induction n rule: str_nat.induct)
  case (1 n)
  show ?case
  proof (cases "n < 10")
    case True
    then show ?thesis by (simp add: str_nat.simps[of n] nat_of_str_def digit_val_digit_char)
  next
    case False
    with 1 have "nat_of_str (str_nat (n div 10)) = n div 10" by simp
    with False show ?thesis
      by (simp add: str_nat.simps[of n] nat_of_str_def digit_val_digit_char)
  qed
qed

lemma str_nat_inj: "str_nat m = str_nat n \<Longrightarrow> m = n"
  by (metis nat_of_str_str_nat)

lemma str_int_inj:
  assumes "0 \<le> i" "0 \<le> j" "str_int i = str_int j"
  shows "i = j"
proof -
  from assms(3) have "str_int i = str_int j" by simp
  with assms(1,2) have "str_nat (nat i) = str_nat (nat j)" by (simp add: str_int_def)
  then have "nat i = nat j" by (rule str_nat_inj)
  with assms(1,2) show ?thesis by simp
qed

lemma distinct_page_urls: "distinct (page_urls base m)"
  unfolding page_urls_def
  by (rule distinct_map[THEN iffD2]) (auto simp: inj_on_def intro: str_int_inj)

lemma length_page_urls: "length (page_urls base m) = nat m"
  by (simp add: page_urls_def)

lemma nth_page_urls: "i < nat m \<Longrightarrow> page_urls base m ! i = base @ ''/page/'' @ str_int (int i + 1)"
  by (simp add: page_urls_def add.commute)

subsection \<open>The fetch phase\<close>

lemma fetch_begin_cases:
  "fetch_begin rp u = (evs, Some r) \<longleftrightarrow> \<not> can_fetch rp u \<and> evs = [LogWarning u] \<and> r = None"
  "fetch_begin rp u = (evs, None) \<longleftrightarrow> can_fetch rp u \<and> evs = [HttpGet u]"
  by (auto simp: fetch_begin_def)

lemma fetch_resume_events: "fetch_resume u out = (evs, r) \<Longrightarrow> HttpGet v \<notin> set evs"
  by (auto simp: fetch_resume_def split: http_outcome.splits)

lemma async_fetch_page_denied: "\<not> can_fetch rp u \<Longrightarrow> async_fetch_page rp net u = ([LogWarning u], Inr None)"
  by (simp add: async_fetch_page_def fetch_begin_def)

lemma async_fetch_page_allowed:
  "can_fetch rp u \<Longrightarrow> snd (async_fetch_page rp net u) = snd (fetch_resume u (net u))"
  by (simp add: async_fetch_page_def fetch_begin_def split: prod.splits)

lemma step_invariant:
  assumes "gather_step rp net urls (ts, tr) (ts', tr')"
    and "length ts = length urls"
    and "\<forall>i<length urls. task_ok rp net (urls ! i) (ts ! i)"
    and "\<forall>u. HttpGet u \<in> set tr \<longrightarrow> u \<in> set urls \<and> can_fetch rp u"
  shows "length ts' = length urls \<and> (\<forall>i<length urls. task_ok rp net (urls ! i) (ts' ! i))
    \<and> (\<forall>u. HttpGet u \<in> set tr' \<longrightarrow> u \<in> set urls \<and> can_fetch rp u)"
  using assms
proof (cases rule: gather_step.cases)
  case (returns i evs r)
  then show ?thesis using assms(2-4)
    by (auto simp: fetch_begin_cases task_ok_def nth_list_update async_fetch_page_denied)
next
  case (suspends i evs)
  then show ?thesis using assms(2-4)
    by (auto simp: fetch_begin_cases task_ok_def nth_list_update)
next
  case (resumes i evs r)
  then have "can_fetch rp (urls ! i)" using assms(3) by (auto simp: task_ok_def)
  with resumes show ?thesis using assms(2-4) fetch_resume_events[of "urls ! i" "net (urls ! i)" evs r]
    by (auto simp: task_ok_def nth_list_update async_fetch_page_allowed)
qed

lemma reach_invariant:
  "gather_reach rp net urls st \<Longrightarrow>
     length (fst st) = length urls \<and> (\<forall>i<length urls. task_ok rp net (urls ! i) (fst st ! i))
     \<and> (\<forall>u. HttpGet u \<in> set (snd st) \<longrightarrow> u \<in> set urls \<and> can_fetch rp u)"
proof (induction rule: gather_reach.induct)
  case start
  then show ?case by (simp add: task_ok_def)
next
  case (step st st')
  then show ?case using step_invariant[of rp net urls "fst st" "snd st" "fst st'" "snd st'"]
    by simp
qed

lemma task_results_Some: "task_results ts = Some rs \<Longrightarrow> ts = map Finished rs"
  by (induction ts arbitrary: rs rule: task_results.induct) auto

lemma task_results_map_Finished: "task_results (map Finished rs) = Some rs"
  by (induction rs) auto

lemma reach_results:
  assumes "gather_reach rp net urls (ts, tr)" "task_results ts = Some rs"
  shows "rs = map (\<lambda>u. snd (async_fetch_page rp net u)) urls"
proof (rule nth_equalityI)
  from assms(2) have ts: "ts = map Finished rs" by (rule task_results_Some)
  from reach_invariant[OF assms(1)] have len: "length ts = length urls"
    and ok: "\<forall>i<length urls. task_ok rp net (urls ! i) (ts ! i)" by simp_all
  from ts len show "length rs = length (map (\<lambda>u. snd (async_fetch_page rp net u)) urls)" by simp
  fix i assume "i < length rs"
  with ts len ok show "rs ! i = map (\<lambda>u. snd (async_fetch_page rp net u)) urls ! i"
    by (auto simp: task_ok_def)
qed

lemma in_flight_le_aux:
  "list_all2 (task_ok rp net) urls ts \<Longrightarrow> in_flight ts \<le> length (filter (can_fetch rp) urls)"
  by (induction rule: list_all2_induct) (auto simp: in_flight_def task_ok_def)

lemma reach_in_flight:
  assumes "gather_reach rp net urls (ts, tr)"
  shows "in_flight ts \<le> length (filter (can_fetch rp) urls)"
proof -
  from reach_invariant[OF assms] have "list_all2 (task_ok rp net) urls ts"
    by (simp add: list_all2_conv_all_nth)
  then show ?thesis by (rule in_flight_le_aux)
qed

lemma update_pending:
  "length xs = k \<Longrightarrow> k < n \<Longrightarrow>
     (xs @ replicate (n - k) Pending)[k := t] = (xs @ [t]) @ replicate (n - Suc k) Pending"
  by (cases "n - k") (auto simp: list_update_append Suc_diff_Suc)

lemma nth_pending: "length xs = k \<Longrightarrow> k < n \<Longrightarrow> (xs @ replicate (n - k) Pending) ! k = Pending"
  by (simp add: nth_append)

lemma sequential_schedule:
  "k \<le> length urls \<Longrightarrow>
     \<exists>tr. gather_reach rp net urls
       (map (\<lambda>u. Finished (snd (async_fetch_page rp net u))) (take k urls)
          @ replicate (length urls - k) Pending, tr)"
proof (induction k)
  case 0
  show ?case using gather_reach.start[of rp net urls] by auto
next
  case (Suc k)
  let ?f = "\<lambda>u. Finished (snd (async_fetch_page rp net u))"
  let ?n = "length urls"
  let ?xs = "map ?f (take k urls)"
  from Suc obtain tr where R: "gather_reach rp net urls (?xs @ replicate (?n - k) Pending, tr)"
    by auto
  from Suc.prems have k: "k < ?n" by simp
  have lx: "length ?xs = k" using k by simp
  have P: "(?xs @ replicate (?n - k) Pending) ! k = Pending" using lx k by (rule nth_pending)
  have T: "map ?f (take (Suc k) urls) = ?xs @ [?f (urls ! k)]"
    using k by (simp add: take_Suc_conv_app_nth)
  show ?case
  proof (cases "can_fetch rp (urls ! k)")
    case False
    then have B: "fetch_begin rp (urls ! k) = ([LogWarning (urls ! k)], Some None)"
      by (simp add: fetch_begin_def)
    from gather_reach.step[OF R gather_step.returns[OF k P B]]
    have "gather_reach rp net urls
        ((?xs @ [Finished (Inr None)]) @ replicate (?n - Suc k) Pending, tr @ [LogWarning (urls ! k)])"
      by (simp only: update_pending[OF lx k])
    moreover have "?f (urls ! k) = Finished (Inr None)"
      using False by (simp add: async_fetch_page_denied)
    ultimately show ?thesis unfolding T by auto
  next
    case True
    then have B: "fetch_begin rp (urls ! k) = ([HttpGet (urls ! k)], None)"
      by (simp add: fetch_begin_def)
    obtain evs r where FR: "fetch_resume (urls ! k) (net (urls ! k)) = (evs, r)"
      by (cases "fetch_resume (urls ! k) (net (urls ! k))")
    from gather_reach.step[OF R gather_step.suspends[OF k P B]]
    have R1: "gather_reach rp net urls
        ((?xs @ [InFlight]) @ replicate (?n - Suc k) Pending, tr @ [HttpGet (urls ! k)])"
      by (simp only: update_pending[OF lx k])
    have I: "((?xs @ [InFlight]) @ replicate (?n - Suc k) Pending) ! k = InFlight"
      using lx by (simp add: nth_append)
    have U: "((?xs @ [InFlight]) @ replicate (?n - Suc k) Pending)[k := Finished r]
        = (?xs @ [Finished r]) @ replicate (?n - Suc k) Pending"
      using lx by (simp add: list_update_append)
    from gather_reach.step[OF R1 gather_step.resumes[where net = net, OF k I FR]]
    have "gather_reach rp net urls
        ((?xs @ [Finished r]) @ replicate (?n - Suc k) Pending, (tr @ [HttpGet (urls ! k)]) @ evs)"
      by (simp only: U)
    moreover have "?f (urls ! k) = Finished r"
      using True FR by (simp add: async_fetch_page_allowed)
    ultimately show ?thesis unfolding T by auto
  qed
qed

lemma complete_schedule:
  "\<exists>ts tr. gather_reach rp net urls (ts, tr)
     \<and> task_results ts = Some (map (\<lambda>u. snd (async_fetch_page rp net u)) urls)"
proof -
  from sequential_schedule[of "length urls" urls rp net]
  obtain tr where "gather_reach rp net urls
      (map (\<lambda>u. Finished (snd (async_fetch_page rp net u))) urls, tr)" by auto
  moreover have "task_results (map (\<lambda>u. Finished (snd (async_fetch_page rp net u))) urls)
      = Some (map (\<lambda>u. snd (async_fetch_page rp net u)) urls)"
    using task_results_map_Finished[of "map (\<lambda>u. snd (async_fetch_page rp net u)) urls"]
    by (simp add: comp_def)
  ultimately show ?thesis by blast
qed

subsection \<open>The loop over the pages\<close>

lemma gather_Inr: "gather rs = Inr xs \<Longrightarrow> rs = map Inr xs"
  by (induction rs arbitrary: xs rule: gather.induct) (auto split: sum.splits)

lemma gather_map_Inr: "gather (map Inr xs) = Inr xs"
  by (induction xs) auto

lemma extract_data_url: "extract_data soup u = Inr item \<Longrightarrow> url item = u"
  by (auto simp: extract_data_def Let_def split: option.splits)

lemma scrape_loop_falsy:
  "length pages = length urls \<Longrightarrow>
   scrape_loop pp (zip urls (map falsy_to_None pages)) a db = scrape_loop pp (zip urls pages) a db"
proof (induction urls pages arbitrary: a db rule: list_induct2')
  case (4 u us p ps)
  then show ?case
    by (cases p) (auto simp: falsy_to_None_def split: sum.splits)
qed simp_all

lemma scrape_loop_urls:
  "scrape_loop pp zs a db = (Inr items, db') \<Longrightarrow>
     set (map url items) \<subseteq> set (map url a) \<union> {v. \<exists>h. (v, Some h) \<in> set zs \<and> h \<noteq> []}"
proof (induction pp zs a db rule: scrape_loop.induct)
  case (1 pp a db)
  then show ?case by auto
next
  case (2 pp u html rest a db)
  show ?case
  proof (cases html)
    case None
    with 2 show ?thesis by auto
  next
    case (Some h)
    show ?thesis
    proof (cases "h = []")
      case True
      with Some 2 show ?thesis by auto
    next
      case False
      show ?thesis
      proof (cases "extract_data (pp h) u")
        case (Inl e)
        with Some False 2(4) show ?thesis by simp
      next
        case (Inr item)
        with Some False 2(3)[of h item] 2(4)
        have "set (map url items) \<subseteq> set (map url (a @ [item])) \<union> {v. \<exists>h. (v, Some h) \<in> set rest \<and> h \<noteq> []}"
          by simp
        moreover have "url item = u" using Inr by (rule extract_data_url)
        ultimately show ?thesis using Some False by auto
      qed
    qed
  qed
qed

lemma scrape_loop_store:
  "scrape_loop pp zs a db = (r, db') \<Longrightarrow> \<forall>h. (u, Some h) \<in> set zs \<longrightarrow> h = [] \<Longrightarrow>
     select_by_url db' u = select_by_url db u"
proof (induction pp zs a db rule: scrape_loop.induct)
  case (1 pp a db)
  then show ?case by auto
next
  case (2 pp v html rest a db)
  show ?case
  proof (cases html)
    case None
    with 2 show ?thesis by auto
  next
    case (Some h)
    show ?thesis
    proof (cases "h = []")
      case True
      with Some 2 show ?thesis by auto
    next
      case False
      with Some 2(5) have "v \<noteq> u" by auto
      show ?thesis
      proof (cases "extract_data (pp h) v")
        case (Inl e)
        with Some False 2(4) show ?thesis by simp
      next
        case (Inr item)
        with Some False 2(3)[of h item] 2(4,5)
        have "select_by_url db' u = select_by_url (save_to_database db item) u"
          by simp
        moreover have "url item = v" using Inr by (rule extract_data_url)
        ultimately show ?thesis using \<open>v \<noteq> u\<close> by (simp add: select_save_other)
      qed
    qed
  qed
qed

lemma gather_falsy:
  "\<forall>x\<in>set xs. f x = g x \<or> (f x = Inr (Some []) \<and> g x = Inr None) \<Longrightarrow>
     (case gather (map f xs) of
        Inl e \<Rightarrow> gather (map g xs) = Inl e
      | Inr ps \<Rightarrow> (\<exists>qs. gather (map g xs) = Inr qs \<and> map falsy_to_None qs = map falsy_to_None ps))"
proof (induction xs)
  case Nil
  then show ?case by simp
next
  case (Cons x xs)
  then have IH: "(case gather (map f xs) of
        Inl e \<Rightarrow> gather (map g xs) = Inl e
      | Inr ps \<Rightarrow> (\<exists>qs. gather (map g xs) = Inr qs \<and> map falsy_to_None qs = map falsy_to_None ps))"
    by simp
  from Cons.prems have "f x = g x \<or> (f x = Inr (Some []) \<and> g x = Inr None)" by simp
  then show ?case
  proof
    assume "f x = g x"
    with IH show ?thesis by (cases "g x"; cases "gather (map f xs)") auto
  next
    assume "f x = Inr (Some []) \<and> g x = Inr None"
    with IH show ?thesis by (cases "gather (map f xs)") (auto simp: falsy_to_None_def)
  qed
qed

lemma gather_length: "gather rs = Inr xs \<Longrightarrow> length xs = length rs"
  by (drule gather_Inr) simp

lemma snd_async_fetch_page:
  "snd (async_fetch_page rp net u) =
     (if \<not> can_fetch rp u then Inr None
      else case net u of Response st body \<Rightarrow> Inr (Some body) | ClientError \<Rightarrow> Inr None
           | Unhandled \<Rightarrow> Inl OtherError)"
  by (simp add: async_fetch_page_def fetch_begin_def fetch_resume_def split: http_outcome.splits)

lemma async_scrape_empty_body_as_failure:
  assumes "http w u = Response status []"
  shows "async_scrape w s m = async_scrape (w\<lparr>http := (http w)(u := ClientError)\<rparr>) s m"
proof -
  let ?w' = "w\<lparr>http := (http w)(u := ClientError)\<rparr>"
  let ?urls = "page_urls (base_url s) m"
  let ?f = "\<lambda>x. snd (async_fetch_page (robot_parser s) (http w) x)"
  let ?g = "\<lambda>x. snd (async_fetch_page (robot_parser s) (http ?w') x)"
  have "\<forall>x\<in>set ?urls. ?f x = ?g x \<or> (?f x = Inr (Some []) \<and> ?g x = Inr None)"
    using assms by (auto simp: snd_async_fetch_page)
  then have G: "(case gather (map ?f ?urls) of
        Inl e \<Rightarrow> gather (map ?g ?urls) = Inl e
      | Inr ps \<Rightarrow> (\<exists>qs. gather (map ?g ?urls) = Inr qs \<and> map falsy_to_None qs = map falsy_to_None ps))"
    by (rule gather_falsy)
  show ?thesis
  proof (cases "gather (map ?f ?urls)")
    case (Inl e)
    with G show ?thesis by (simp add: async_scrape_def fetch_pages_def)
  next
    case (Inr ps)
    with G obtain qs where qs: "gather (map ?g ?urls) = Inr qs"
      "map falsy_to_None qs = map falsy_to_None ps" by auto
    have lp: "length ps = length ?urls" using Inr by (auto dest: gather_length)
    have lq: "length qs = length ?urls" using qs(1) by (auto dest: gather_length)
    have "scrape_loop (html_parser w) (zip ?urls ps) [] (db_connection s)
        = scrape_loop (html_parser w) (zip ?urls qs) [] (db_connection s)"
      using scrape_loop_falsy[OF lp, of "html_parser w" "[]" "db_connection s"]
        scrape_loop_falsy[OF lq, of "html_parser w" "[]" "db_connection s"] qs(2)
      by simp
    with Inr qs(1) show ?thesis by (simp add: async_scrape_def fetch_pages_def)
  qed
qed

lemma zip_gather_page:
  assumes "gather (map f urls) = Inr pages" "(u, p) \<in> set (zip urls pages)"
  shows "f u = Inr p"
proof -
  from assms(1) have "map f urls = map Inr pages" by (rule gather_Inr)
  moreover from assms(2) obtain i where "i < length urls" "i < length pages" "urls ! i = u" "pages ! i = p"
    by (auto simp: set_zip)
  ultimately show ?thesis by (metis nth_map)
qed

lemma async_scrape_empty_body_no_item:
  assumes "http w u = Response status []"
  shows "(\<forall>items. fst (async_scrape w s m) = Inr items \<longrightarrow> u \<notin> set (map url items))
     \<and> select_by_url (snd (async_scrape w s m)) u = select_by_url (db_connection s) u"
proof (cases "fetch_pages w s (page_urls (base_url s) m)")
  case (Inl e)
  then show ?thesis by (simp add: async_scrape_def)
next
  case (Inr pages)
  let ?urls = "page_urls (base_url s) m"
  have skip: "\<forall>h. (u, Some h) \<in> set (zip ?urls pages) \<longrightarrow> h = []"
  proof (intro allI impI)
    fix h assume "(u, Some h) \<in> set (zip ?urls pages)"
    with Inr have "snd (async_fetch_page (robot_parser s) (http w) u) = Inr (Some h)"
      unfolding fetch_pages_def by (rule zip_gather_page)
    with assms show "h = []" by (auto simp: snd_async_fetch_page split: if_splits)
  qed
  obtain r db' where L: "scrape_loop (html_parser w) (zip ?urls pages) [] (db_connection s) = (r, db')"
    by (cases "scrape_loop (html_parser w) (zip ?urls pages) [] (db_connection s)")
  have "select_by_url db' u = select_by_url (db_connection s) u"
    using L skip by (rule scrape_loop_store)
  moreover have "\<forall>items. r = Inr items \<longrightarrow> u \<notin> set (map url items)"
  proof (intro allI impI)
    fix items assume "r = Inr items"
    with L have "scrape_loop (html_parser w) (zip ?urls pages) [] (db_connection s) = (Inr items, db')"
      by simp
    then have "set (map url items) \<subseteq> {v. \<exists>h. (v, Some h) \<in> set (zip ?urls pages) \<and> h \<noteq> []}"
      using scrape_loop_urls[of "html_parser w" "zip ?urls pages" "[]" "db_connection s" items db'] by simp
    with skip show "u \<notin> set (map url items)" by auto
  qed
  ultimately show ?thesis using Inr L by (simp add: async_scrape_def)
qed

subsection \<open>The CSV reader on exported files\<close>

lemma tokens_split_lines:
  "concat (map line_tokens (split_lines cur s))
     = map Some cur @ mark_eol s @ (if open_line cur s then [None] else [])"
proof (induction cur s rule: split_lines.induct)
  case (1 cur)
  then show ?case by (simp add: open_line_def line_tokens_def)
next
  case (2 cur c cs)
  show ?case
  proof (cases "c = LF")
    case True
    with 2 show ?thesis by (cases cs) (auto simp: open_line_def line_tokens_def)
  next
    case nlf: False
    show ?thesis
    proof (cases "c = CR")
      case True
      show ?thesis
      proof (cases cs)
        case Nil
        with True show ?thesis by (simp add: open_line_def line_tokens_def)
      next
        case (Cons d ds)
        show ?thesis
        proof (cases "d = LF")
          case dl: True
          with 2(2)[OF nlf True Cons dl] True Cons show ?thesis
            by (cases ds) (auto simp: open_line_def line_tokens_def)
        next
          case dn: False
          with 2(3)[OF nlf True Cons dn] True Cons show ?thesis
            by (auto simp: open_line_def line_tokens_def)
        qed
      qed
    next
      case False
      with 2(4)[OF nlf False] nlf show ?thesis
        by (cases cs) (auto simp: open_line_def)
    qed
  qed
qed

lemma run_chars:
  "run r (map Some l @ ts) = (case parse_chars r l of None \<Rightarrow> None | Some r' \<Rightarrow> run r' ts)"
  by (induction l arbitrary: r) (auto split: option.splits)

lemma read_lines_run: "read_lines r ls = run r (concat (map line_tokens ls))"
proof (induction ls arbitrary: r)
  case Nil
  then show ?case by simp
next
  case (Cons l ls)
  show ?case
    by (simp add: line_tokens_def run_chars parse_line_def Cons split: option.splits)
qed

lemma reader_run:
  "reader s = run parse_reset (mark_eol s @ (if open_line [] s then [None] else []))"
  by (simp add: reader_def readlines_def read_lines_run tokens_split_lines)


lemma run_quoted_char:
  "c \<noteq> DQUOTE \<Longrightarrow>
     run \<lparr>state = IN_QUOTED_FIELD, field = a, row_fields = fs\<rparr> (mark_eol (c # X))
       = run \<lparr>state = IN_QUOTED_FIELD, field = a @ [c], row_fields = fs\<rparr> (mark_eol X)"
  by (simp add: parse_process_char_def parse_add_char_def)

lemma run_quoted_quote:
  "run \<lparr>state = IN_QUOTED_FIELD, field = a, row_fields = fs\<rparr> (mark_eol (DQUOTE # DQUOTE # X))
     = run \<lparr>state = IN_QUOTED_FIELD, field = a @ [DQUOTE], row_fields = fs\<rparr> (mark_eol X)"
  by (simp add: parse_process_char_def parse_add_char_def)

lemma run_quoted_body:
  "run \<lparr>state = IN_QUOTED_FIELD, field = a, row_fields = fs\<rparr> (mark_eol (double_quotes f @ X))
     = run \<lparr>state = IN_QUOTED_FIELD, field = a @ f, row_fields = fs\<rparr> (mark_eol X)"
proof (induction f arbitrary: a)
  case Nil
  then show ?case by (simp add: double_quotes_def)
next
  case (Cons c f)
  show ?case
  proof (cases "c = DQUOTE")
    case True
    then have "double_quotes (c # f) @ X = DQUOTE # DQUOTE # (double_quotes f @ X)"
      by (simp add: double_quotes_def)
    then have "run \<lparr>state = IN_QUOTED_FIELD, field = a, row_fields = fs\<rparr>
          (mark_eol (double_quotes (c # f) @ X))
        = run \<lparr>state = IN_QUOTED_FIELD, field = a @ [DQUOTE], row_fields = fs\<rparr>
          (mark_eol (double_quotes f @ X))"
      by (simp only: run_quoted_quote)
    also have "\<dots> = run \<lparr>state = IN_QUOTED_FIELD, field = (a @ [DQUOTE]) @ f, row_fields = fs\<rparr>
          (mark_eol X)"
      by (rule Cons)
    finally show ?thesis using True by simp
  next
    case False
    then have "double_quotes (c # f) @ X = c # (double_quotes f @ X)"
      by (simp add: double_quotes_def)
    then have "run \<lparr>state = IN_QUOTED_FIELD, field = a, row_fields = fs\<rparr>
          (mark_eol (double_quotes (c # f) @ X))
        = run \<lparr>state = IN_QUOTED_FIELD, field = a @ [c], row_fields = fs\<rparr>
          (mark_eol (double_quotes f @ X))"
      by (simp only: run_quoted_char[OF False])
    also have "\<dots> = run \<lparr>state = IN_QUOTED_FIELD, field = (a @ [c]) @ f, row_fields = fs\<rparr>
          (mark_eol X)"
      by (rule Cons)
    finally show ?thesis by simp
  qed
qed

lemma run_unquoted_body:
  "\<not> list_ex csv_special f \<Longrightarrow>
     run \<lparr>state = IN_FIELD, field = a, row_fields = fs\<rparr> (mark_eol (f @ X))
       = run \<lparr>state = IN_FIELD, field = a @ f, row_fields = fs\<rparr> (mark_eol X)"
proof (induction f arbitrary: a)
  case Nil
  then show ?case by simp
next
  case (Cons c f)
  from Cons.prems have "\<not> csv_special c" and f: "\<not> list_ex csv_special f"
    by simp_all
  then have c: "c \<noteq> COMMA" "c \<noteq> DQUOTE" "c \<noteq> CR" "c \<noteq> LF"
    by (simp_all add: csv_special_def)
  have "run \<lparr>state = IN_FIELD, field = a, row_fields = fs\<rparr> (mark_eol ((c # f) @ X))
      = run \<lparr>state = IN_FIELD, field = a @ [c], row_fields = fs\<rparr> (mark_eol (f @ X))"
    using c by (simp add: parse_process_char_def parse_add_char_def)
  then show ?case using Cons.IH[OF f, of "a @ [c]"] by simp
qed

lemma double_quotes_plain: "\<not> list_ex csv_special f \<Longrightarrow> double_quotes f = f"
proof (induction f)
  case Nil
  then show ?case by (simp add: double_quotes_def)
next
  case (Cons c f)
  then have "\<not> csv_special c" and "double_quotes f = f" by simp_all
  then show ?case by (simp add: double_quotes_def csv_special_def)
qed

lemma run_field_comma:
  assumes "st = START_RECORD \<or> st = START_FIELD"
  shows "run \<lparr>state = st, field = [], row_fields = fs\<rparr> (mark_eol (join_append_data f @ COMMA # X))
     = run \<lparr>state = START_FIELD, field = [], row_fields = fs @ [f]\<rparr> (mark_eol X)"
proof (cases "list_ex csv_special f")
  case True
  have "run \<lparr>state = st, field = [], row_fields = fs\<rparr>
        (mark_eol (DQUOTE # double_quotes f @ DQUOTE # COMMA # X))
      = run \<lparr>state = IN_QUOTED_FIELD, field = [], row_fields = fs\<rparr>
        (mark_eol (double_quotes f @ DQUOTE # COMMA # X))"
    using assms by (auto simp: parse_process_char_def start_field_def)
  also have "\<dots> = run \<lparr>state = IN_QUOTED_FIELD, field = f, row_fields = fs\<rparr>
        (mark_eol (DQUOTE # COMMA # X))"
    using run_quoted_body[of "[]" fs f "DQUOTE # COMMA # X"] by simp
  also have "\<dots> = run \<lparr>state = START_FIELD, field = [], row_fields = fs @ [f]\<rparr> (mark_eol X)"
    by (simp add: parse_process_char_def parse_save_field_def)
  finally show ?thesis using True by (simp add: join_append_data_def)
next
  case False
  show ?thesis
  proof (cases f)
    case Nil
    then show ?thesis using assms
      by (auto simp: join_append_data_def double_quotes_def parse_process_char_def
          start_field_def parse_save_field_def)
  next
    case (Cons c g)
    with False have "\<not> csv_special c" and g: "\<not> list_ex csv_special g"
      by simp_all
    then have c: "c \<noteq> COMMA" "c \<noteq> DQUOTE" "c \<noteq> CR" "c \<noteq> LF"
      by (simp_all add: csv_special_def)
    have "run \<lparr>state = st, field = [], row_fields = fs\<rparr> (mark_eol ((c # g) @ COMMA # X))
        = run \<lparr>state = IN_FIELD, field = [c], row_fields = fs\<rparr> (mark_eol (g @ COMMA # X))"
      using assms c by (auto simp: parse_process_char_def start_field_def parse_add_char_def)
    also have "\<dots> = run \<lparr>state = IN_FIELD, field = c # g, row_fields = fs\<rparr>
          (mark_eol (COMMA # X))"
      using run_unquoted_body[OF g, of "[c]" fs "COMMA # X"] by simp
    also have "\<dots> = run \<lparr>state = START_FIELD, field = [], row_fields = fs @ [c # g]\<rparr>
          (mark_eol X)"
      by (simp add: parse_process_char_def parse_save_field_def)
    finally show ?thesis using False Cons by (simp add: join_append_data_def double_quotes_plain)
  qed
qed

lemma run_field_crlf:
  "run \<lparr>state = START_FIELD, field = [], row_fields = fs\<rparr>
       (mark_eol (join_append_data f @ CR # LF # X))
     = map_option ((#) (fs @ [f])) (run parse_reset (mark_eol X))"
proof (cases "list_ex csv_special f")
  case True
  have "run \<lparr>state = START_FIELD, field = [], row_fields = fs\<rparr>
        (mark_eol (DQUOTE # double_quotes f @ DQUOTE # CR # LF # X))
      = run \<lparr>state = IN_QUOTED_FIELD, field = [], row_fields = fs\<rparr>
        (mark_eol (double_quotes f @ DQUOTE # CR # LF # X))"
    by (simp add: parse_process_char_def start_field_def)
  also have "\<dots> = run \<lparr>state = IN_QUOTED_FIELD, field = f, row_fields = fs\<rparr>
        (mark_eol (DQUOTE # CR # LF # X))"
    using run_quoted_body[of "[]" fs f "DQUOTE # CR # LF # X"] by simp
  also have "\<dots> = map_option ((#) (fs @ [f])) (run parse_reset (mark_eol X))"
    by (simp add: parse_process_char_def parse_save_field_def)
  finally show ?thesis using True by (simp add: join_append_data_def)
next
  case False
  show ?thesis
  proof (cases f)
    case Nil
    then show ?thesis
      by (simp add: join_append_data_def double_quotes_def parse_process_char_def
          start_field_def parse_save_field_def)
  next
    case (Cons c g)
    with False have "\<not> csv_special c" and g: "\<not> list_ex csv_special g"
      by simp_all
    then have c: "c \<noteq> COMMA" "c \<noteq> DQUOTE" "c \<noteq> CR" "c \<noteq> LF"
      by (simp_all add: csv_special_def)
    have "run \<lparr>state = START_FIELD, field = [], row_fields = fs\<rparr>
          (mark_eol ((c # g) @ CR # LF # X))
        = run \<lparr>state = IN_FIELD, field = [c], row_fields = fs\<rparr> (mark_eol (g @ CR # LF # X))"
      using c by (simp add: parse_process_char_def start_field_def parse_add_char_def)
    also have "\<dots> = run \<lparr>state = IN_FIELD, field = c # g, row_fields = fs\<rparr>
          (mark_eol (CR # LF # X))"
      using run_unquoted_body[OF g, of "[c]" fs "CR # LF # X"] by simp
    also have "\<dots> = map_option ((#) (fs @ [c # g])) (run parse_reset (mark_eol X))"
      by (simp add: parse_process_char_def parse_save_field_def)
    finally show ?thesis using False Cons by (simp add: join_append_data_def double_quotes_plain)
  qed
qed

lemma run_writerow:
  "run parse_reset (mark_eol (writerow [a, b, c] @ X))
     = map_option ((#) [a, b, c]) (run parse_reset (mark_eol X))"
proof -
  have w: "writerow [a, b, c] @ X
      = join_append_data a @ COMMA # (join_append_data b @ COMMA # (join_append_data c @ CR # LF # X))"
    by (simp add: writerow_def)
  show ?thesis
    unfolding w parse_reset_def
    using run_field_comma[of START_RECORD "[]" a] run_field_comma[of START_FIELD "[a]" b]
      run_field_crlf[of "[a, b]" c X]
    by (simp add: parse_reset_def)
qed

lemma run_rows:
  "run parse_reset (mark_eol (concat (map (\<lambda>item. writerow (dict_to_list item)) data)))
     = Some (map dict_to_list data)"
proof (induction data)
  case Nil
  then show ?case by (simp add: parse_reset_def)
next
  case (Cons item data)
  then show ?case
    using run_writerow[of "title item" "description item" "url item"
        "concat (map (\<lambda>item. writerow (dict_to_list item)) data)"]
    by (simp add: dict_to_list_def)
qed

lemma rows_end: 
  "concat (map (\<lambda>item. writerow (dict_to_list item)) data) = []
     \<or> last (concat (map (\<lambda>item. writerow (dict_to_list item)) data)) = LF"
  by (induction data) (auto simp: writerow_def)

lemma export_closed: "\<not> open_line [] (export_to_csv data)"
  using rows_end[of data] by (auto simp: open_line_def export_to_csv_def writerow_def)

lemma reader_export: "reader (export_to_csv data) = Some (fieldnames # map dict_to_list data)"
proof -
  have "reader (export_to_csv data) = run parse_reset (mark_eol (export_to_csv data))"
    using export_closed[of data] by (simp add: reader_run)
  also have "\<dots> = map_option ((#) fieldnames)
      (run parse_reset (mark_eol (concat (map (\<lambda>item. writerow (dict_to_list item)) data))))"
    using run_writerow[of "''title''" "''description''" "''url''"]
    by (simp add: export_to_csv_def fieldnames_def)
  finally show ?thesis by (simp add: run_rows)
qed

lemma csv_tuples_export: "csv_tuples (export_to_csv data) = Some (map item_tuple data)"
  by (simp add: csv_tuples_def reader_export DictReader_def fieldnames_def dict_to_list_def
      item_tuple_def)

section \<open>Properties of the specification\<close>

subsection \<open>Policy gate\<close>

lemma gather_append:
  "gather (rs @ rs') =
     (case gather rs of
        Inl e \<Rightarrow> Inl e
      | Inr ps \<Rightarrow> (case gather rs' of Inl e \<Rightarrow> Inl e | Inr qs \<Rightarrow> Inr (ps @ qs)))"
  by (induction rs rule: gather.induct) (auto split: sum.splits)

text \<open>
  Claim C1. A URL that the loaded rules deny is never requested: \<^verbatim>\<open>async_fetch_page\<close>
  returns \<^verbatim>\<open>None\<close> for it after logging a warning, no state of the fetch phase has a GET
  for it among its events, and the run goes on: the list of pages has \<^verbatim>\<open>None\<close> at its
  place between the pages of the URLs before and after it, and the loop skips it.
\<close>

theorem denied_url_never_requested:
  "\<not> can_fetch rp u \<Longrightarrow>
     async_fetch_page rp net u = ([LogWarning u], Inr None)
     \<and> (\<forall>urls ts tr. gather_reach rp net urls (ts, tr) \<longrightarrow> HttpGet u \<notin> set tr)
     \<and> gather (map (\<lambda>x. snd (async_fetch_page rp net x)) (xs @ u # ys)) =
         (case gather (map (\<lambda>x. snd (async_fetch_page rp net x)) xs) of
            Inl e \<Rightarrow> Inl e
          | Inr ps \<Rightarrow>
              (case gather (map (\<lambda>x. snd (async_fetch_page rp net x)) ys) of
                 Inl e \<Rightarrow> Inl e
               | Inr qs \<Rightarrow> Inr (ps @ None # qs)))
     \<and> scrape_loop parse_page ((u, None) # rest) all_data db
         = scrape_loop parse_page rest all_data db"
proof -
  assume d: "\<not> can_fetch rp u"
  have "\<forall>urls ts tr. gather_reach rp net urls (ts, tr) \<longrightarrow> HttpGet u \<notin> set tr"
    using d reach_invariant[of rp net] by fastforce
  moreover have "gather (map (\<lambda>x. snd (async_fetch_page rp net x)) (xs @ u # ys)) =
         (case gather (map (\<lambda>x. snd (async_fetch_page rp net x)) xs) of
            Inl e \<Rightarrow> Inl e
          | Inr ps \<Rightarrow>
              (case gather (map (\<lambda>x. snd (async_fetch_page rp net x)) ys) of
                 Inl e \<Rightarrow> Inl e
               | Inr qs \<Rightarrow> Inr (ps @ None # qs)))"
    using d by (simp add: gather_append async_fetch_page_denied split: sum.splits)
  ultimately show ?thesis using d by (simp add: async_fetch_page_denied)
qed

theorem denied_url_never_requested_witness:
  "\<not> can_fetch policy_without_page_3 ''https://example.com/page/3''
   \<and> async_fetch_page policy_without_page_3 hello_server ''https://example.com/page/3''
       = ([LogWarning ''https://example.com/page/3''], Inr None)
   \<and> gather_reach policy_without_page_3 hello_server
        [''https://example.com/page/2'', ''https://example.com/page/3'']
        ([InFlight, Finished (Inr None)],
         [HttpGet ''https://example.com/page/2'', LogWarning ''https://example.com/page/3''])
   \<and> HttpGet ''https://example.com/page/3''
       \<notin> set [HttpGet ''https://example.com/page/2'', LogWarning ''https://example.com/page/3'']
   \<and> gather (map (\<lambda>x. snd (async_fetch_page policy_without_page_3 hello_server x))
        ([''https://example.com/page/2''] @ ''https://example.com/page/3''
           # [''https://example.com/page/4'']))
       = Inr [Some ''Hello'', None, Some ''Hello'']"
proof -
  let ?rp = policy_without_page_3
  let ?p2 = "''https://example.com/page/2''"
  let ?p3 = "''https://example.com/page/3''"
  let ?urls = "[?p2, ?p3]"
  have d: "\<not> can_fetch ?rp ?p3"
    by (simp add: can_fetch_def policy_without_page_3_def)
  have a: "can_fetch ?rp ?p2"
    by (simp add: can_fetch_def policy_without_page_3_def)
  have a4: "can_fetch ?rp ''https://example.com/page/4''"
    by (simp add: can_fetch_def policy_without_page_3_def)
  have r0: "gather_reach ?rp hello_server ?urls ([Pending, Pending], [])"
    using gather_reach.start[of ?rp hello_server ?urls] by simp
  have s1: "gather_step ?rp hello_server ?urls ([Pending, Pending], [])
      ([InFlight, Pending], [HttpGet ?p2])"
    using gather_step.suspends[where i = 0 and urls = ?urls and ts = "[Pending, Pending]"
        and rp = ?rp and evs = "[HttpGet ?p2]" and net = hello_server and tr = "[]"] a
    by (simp add: fetch_begin_def)
  have s2: "gather_step ?rp hello_server ?urls ([InFlight, Pending], [HttpGet ?p2])
      ([InFlight, Finished (Inr None)], [HttpGet ?p2, LogWarning ?p3])"
    using gather_step.returns[where i = 1 and urls = ?urls and ts = "[InFlight, Pending]"
        and rp = ?rp and evs = "[LogWarning ?p3]" and r = None and net = hello_server
        and tr = "[HttpGet ?p2]"] d
    by (simp add: fetch_begin_def)
  have r2: "gather_reach ?rp hello_server ?urls
      ([InFlight, Finished (Inr None)], [HttpGet ?p2, LogWarning ?p3])"
    using gather_reach.step[OF gather_reach.step[OF r0 s1] s2] .
  have g: "gather (map (\<lambda>x. snd (async_fetch_page ?rp hello_server x)) [?p2]) = Inr [Some ''Hello'']"
    "gather (map (\<lambda>x. snd (async_fetch_page ?rp hello_server x)) [''https://example.com/page/4''])
       = Inr [Some ''Hello'']"
    using a a4 by (simp_all add: async_fetch_page_def fetch_begin_def fetch_resume_def hello_server_def)
  note t = denied_url_never_requested[OF d, of hello_server "[?p2]"
      "[''https://example.com/page/4'']"]
  have "gather (map (\<lambda>x. snd (async_fetch_page ?rp hello_server x))
        ([?p2] @ ?p3 # [''https://example.com/page/4'']))
       = Inr [Some ''Hello'', None, Some ''Hello'']"
    using t[THEN conjunct2, THEN conjunct2, THEN conjunct1] by (simp only: g sum.case append.simps)
  moreover have "HttpGet ?p3 \<notin> set [HttpGet ?p2, LogWarning ?p3]"
    using t[THEN conjunct2, THEN conjunct1] r2 by blast
  ultimately show ?thesis
    using d r2 t[THEN conjunct1] by blast
qed

subsection \<open>Ordered gather\<close>

text \<open>
  Claim C2. Some schedule of the fetch phase completes, and every schedule that completes,
  in whatever order its requests resolve, leaves the same results: as many as there are
  URLs, the result at place \<open>i\<close> being that of \<^verbatim>\<open>async_fetch_page\<close> for the URL at
  place \<open>i\<close>. They are the list \<^verbatim>\<open>pages\<close> that \<^verbatim>\<open>async_scrape\<close> zips with the URLs, so
  that what is extracted and stored after it depends on the outcome for each URL only.
\<close>

theorem fetch_results_in_input_order:
  "(\<exists>ts tr. gather_reach (robot_parser s) (http w) urls (ts, tr) \<and> task_results ts \<noteq> None)
   \<and> (\<forall>ts tr rs. gather_reach (robot_parser s) (http w) urls (ts, tr) \<and> task_results ts = Some rs
        \<longrightarrow> length rs = length urls
          \<and> (\<forall>i<length urls. rs ! i = snd (async_fetch_page (robot_parser s) (http w) (urls ! i)))
          \<and> gather rs = fetch_pages w s urls
          \<and> (\<forall>pages. gather rs = Inr pages \<longrightarrow> length pages = length urls
                \<and> (\<forall>i<length urls.
                      snd (async_fetch_page (robot_parser s) (http w) (urls ! i)) = Inr (pages ! i))))"
proof (intro conjI allI impI)
  show "\<exists>ts tr. gather_reach (robot_parser s) (http w) urls (ts, tr) \<and> task_results ts \<noteq> None"
    using complete_schedule[of "robot_parser s" "http w" urls] by auto
next
  fix ts tr rs
  assume "gather_reach (robot_parser s) (http w) urls (ts, tr) \<and> task_results ts = Some rs"
  then have rs: "rs = map (\<lambda>u. snd (async_fetch_page (robot_parser s) (http w) u)) urls"
    using reach_results by blast
  show "length rs = length urls" using rs by simp
  show "gather rs = fetch_pages w s urls" using rs by (simp add: fetch_pages_def)
  { fix i assume "i < length urls"
    then show "rs ! i = snd (async_fetch_page (robot_parser s) (http w) (urls ! i))"
      using rs by simp }
  { fix pages assume g: "gather rs = Inr pages"
    then have m: "rs = map Inr pages" by (rule gather_Inr)
    then show "length pages = length urls" using rs by (metis length_map)
    fix i assume "i < length urls"
    then show "snd (async_fetch_page (robot_parser s) (http w) (urls ! i)) = Inr (pages ! i)"
      using rs m by (metis length_map nth_map) }
qed

theorem fetch_results_in_input_order_witness:
  "gather_reach (robot_parser example_scraper) (http world_500)
      [''https://example.com/page/1'', ''https://example.com/page/2'']
      ([Finished (Inr (Some ''Server Error'')), Finished (Inr (Some ''Hello''))],
       [HttpGet ''https://example.com/page/1'', HttpGet ''https://example.com/page/2''])
   \<and> task_results [Finished (Inr (Some ''Server Error'')), Finished (Inr (Some ''Hello''))]
       = Some [Inr (Some ''Server Error''), Inr (Some ''Hello'')]
   \<and> gather [Inr (Some ''Server Error''), Inr (Some ''Hello'')]
       = Inr [Some ''Server Error'', Some ''Hello'']
   \<and> fetch_pages world_500 example_scraper
        [''https://example.com/page/1'', ''https://example.com/page/2'']
       = Inr [Some ''Server Error'', Some ''Hello'']
   \<and> snd (async_fetch_page (robot_parser example_scraper) (http world_500)
        ''https://example.com/page/2'') = Inr (Some ''Hello'')"
proof -
  let ?rp = "robot_parser example_scraper"
  let ?net = "http world_500"
  let ?p1 = "''https://example.com/page/1''"
  let ?p2 = "''https://example.com/page/2''"
  let ?urls = "[?p1, ?p2]"
  let ?ts = "[Finished (Inr (Some ''Server Error'')), Finished (Inr (Some ''Hello''))]"
  let ?tr = "[HttpGet ?p1, HttpGet ?p2]"
  have a: "can_fetch ?rp ?p1" "can_fetch ?rp ?p2"
    by (simp_all add: can_fetch_def example_scraper_def policy_allowing_def)
  have n: "?net ?p1 = Response 500 ''Server Error''" "?net ?p2 = Response 200 ''Hello''"
    by (simp_all add: world_500_def hello_server_def)
  have r0: "gather_reach ?rp ?net ?urls ([Pending, Pending], [])"
    using gather_reach.start[of ?rp ?net ?urls] by simp
  have s1: "gather_step ?rp ?net ?urls ([Pending, Pending], []) ([InFlight, Pending], [HttpGet ?p1])"
    using gather_step.suspends[where i = 0 and urls = ?urls and ts = "[Pending, Pending]"
        and rp = ?rp and evs = "[HttpGet ?p1]" and net = ?net and tr = "[]"] a
    by (simp add: fetch_begin_def)
  have s2: "gather_step ?rp ?net ?urls ([InFlight, Pending], [HttpGet ?p1])
      ([InFlight, InFlight], ?tr)"
    using gather_step.suspends[where i = 1 and urls = ?urls and ts = "[InFlight, Pending]"
        and rp = ?rp and evs = "[HttpGet ?p2]" and net = ?net and tr = "[HttpGet ?p1]"] a
    by (simp add: fetch_begin_def)
  have s3: "gather_step ?rp ?net ?urls ([InFlight, InFlight], ?tr)
      ([InFlight, Finished (Inr (Some ''Hello''))], ?tr)"
    using gather_step.resumes[where i = 1 and urls = ?urls and ts = "[InFlight, InFlight]"
        and rp = ?rp and evs = "[]" and r = "Inr (Some ''Hello'')" and net = ?net and tr = ?tr] n
    by (simp add: fetch_resume_def)
  have s4: "gather_step ?rp ?net ?urls ([InFlight, Finished (Inr (Some ''Hello''))], ?tr) (?ts, ?tr)"
    using gather_step.resumes[where i = 0 and urls = ?urls
        and ts = "[InFlight, Finished (Inr (Some ''Hello''))]"
        and rp = ?rp and evs = "[]" and r = "Inr (Some ''Server Error'')" and net = ?net
        and tr = ?tr] n
    by (simp add: fetch_resume_def)
  have r4: "gather_reach ?rp ?net ?urls (?ts, ?tr)"
    using gather_reach.step[OF gather_reach.step[OF gather_reach.step[OF
          gather_reach.step[OF r0 s1] s2] s3] s4] .
  have tr: "task_results ?ts = Some [Inr (Some ''Server Error''), Inr (Some ''Hello'')]"
    by simp
  have g: "gather [Inr (Some ''Server Error''), Inr (Some ''Hello'')]
      = Inr [Some ''Server Error'', Some ''Hello'']"
    by simp
  note t = fetch_results_in_input_order[of example_scraper world_500 ?urls, THEN conjunct2,
      rule_format, of ?ts ?tr "[Inr (Some ''Server Error''), Inr (Some ''Hello'')]",
      OF conjI[OF r4 tr]]
  have "fetch_pages world_500 example_scraper ?urls = Inr [Some ''Server Error'', Some ''Hello'']"
    using t[THEN conjunct2, THEN conjunct2, THEN conjunct1] g by simp
  moreover have "snd (async_fetch_page ?rp ?net ?p2) = Inr (Some ''Hello'')"
    using t[THEN conjunct2, THEN conjunct2, THEN conjunct2, rule_format, OF g, THEN conjunct2,
        rule_format, of 1]
    by simp
  ultimately show ?thesis using r4 tr g by blast
qed

subsection \<open>In-flight requests\<close>

text \<open>
  Claim C9, as stated, fails. The fetcher of the specification takes a concurrency limit;
  \<^verbatim>\<open>async_scrape\<close> takes none and hands one task for each URL to \<^verbatim>\<open>asyncio.gather\<close>, with
  no pool and no semaphore. For a limit of one and two allowed URLs, the state in which
  both requests have been issued and none has resolved is reachable.
\<close>

theorem two_requests_in_flight:
  "gather_reach policy_allowing hello_server
      [''https://example.com/page/1'', ''https://example.com/page/2'']
      ([InFlight, InFlight],
       [HttpGet ''https://example.com/page/1'', HttpGet ''https://example.com/page/2''])
   \<and> \<not> in_flight [InFlight, InFlight] \<le> 1"
proof -
  let ?rp = policy_allowing
  let ?p1 = "''https://example.com/page/1''"
  let ?p2 = "''https://example.com/page/2''"
  let ?urls = "[?p1, ?p2]"
  have a: "can_fetch ?rp ?p1" "can_fetch ?rp ?p2"
    by (simp_all add: can_fetch_def policy_allowing_def)
  have r0: "gather_reach ?rp hello_server ?urls ([Pending, Pending], [])"
    using gather_reach.start[of ?rp hello_server ?urls] by simp
  have s1: "gather_step ?rp hello_server ?urls ([Pending, Pending], [])
      ([InFlight, Pending], [HttpGet ?p1])"
    using gather_step.suspends[where i = 0 and urls = ?urls and ts = "[Pending, Pending]"
        and rp = ?rp and evs = "[HttpGet ?p1]" and net = hello_server and tr = "[]"] a
    by (simp add: fetch_begin_def)
  have s2: "gather_step ?rp hello_server ?urls ([InFlight, Pending], [HttpGet ?p1])
      ([InFlight, InFlight], [HttpGet ?p1, HttpGet ?p2])"
    using gather_step.suspends[where i = 1 and urls = ?urls and ts = "[InFlight, Pending]"
        and rp = ?rp and evs = "[HttpGet ?p2]" and net = hello_server and tr = "[HttpGet ?p1]"] a
    by (simp add: fetch_begin_def)
  have "gather_reach ?rp hello_server ?urls ([InFlight, InFlight], [HttpGet ?p1, HttpGet ?p2])"
    using gather_reach.step[OF gather_reach.step[OF r0 s1] s2] .
  then show ?thesis by (simp add: in_flight_def)
qed

text \<open>
  Claim C9, amended. In every state of the fetch phase, for every sequence of URLs and
  every interleaving of task starts and request completions, the number of requests in
  flight is at most the number of URLs of the sequence that the exclusion policy allows.
\<close>

theorem in_flight_bounded_by_allowed_urls:
  "gather_reach rp net urls (ts, tr) \<Longrightarrow> in_flight ts \<le> length (filter (can_fetch rp) urls)"
  by (rule reach_in_flight)

theorem in_flight_bounded_by_allowed_urls_witness:
  "gather_reach policy_without_page_3 hello_server (page_urls ''https://example.com'' 3)
      ([InFlight, InFlight, Finished (Inr None)],
       [HttpGet ''https://example.com/page/1'', HttpGet ''https://example.com/page/2'',
        LogWarning ''https://example.com/page/3''])
   \<and> in_flight [InFlight, InFlight, Finished (Inr None)]
       \<le> length (filter (can_fetch policy_without_page_3) (page_urls ''https://example.com'' 3))
   \<and> in_flight [InFlight, InFlight, Finished (Inr None)] = 2
   \<and> length (filter (can_fetch policy_without_page_3) (page_urls ''https://example.com'' 3)) = 2"
proof -
  let ?rp = policy_without_page_3
  let ?p1 = "''https://example.com/page/1''"
  let ?p2 = "''https://example.com/page/2''"
  let ?p3 = "''https://example.com/page/3''"
  let ?urls = "[?p1, ?p2, ?p3]"
  have u: "page_urls ''https://example.com'' 3 = ?urls"
    by (simp add: page_urls_def upto.simps str_int_def str_nat.simps digit_char_def)
  have a: "can_fetch ?rp ?p1" "can_fetch ?rp ?p2" "\<not> can_fetch ?rp ?p3"
    by (simp_all add: can_fetch_def policy_without_page_3_def)
  have r0: "gather_reach ?rp hello_server ?urls ([Pending, Pending, Pending], [])"
    using gather_reach.start[of ?rp hello_server ?urls] by (simp add: numeral_eq_Suc)
  have s1: "gather_step ?rp hello_server ?urls ([Pending, Pending, Pending], [])
      ([InFlight, Pending, Pending], [HttpGet ?p1])"
    using gather_step.suspends[where i = 0 and urls = ?urls and ts = "[Pending, Pending, Pending]"
        and rp = ?rp and evs = "[HttpGet ?p1]" and net = hello_server and tr = "[]"] a
    by (simp add: fetch_begin_def)
  have s2: "gather_step ?rp hello_server ?urls ([InFlight, Pending, Pending], [HttpGet ?p1])
      ([InFlight, InFlight, Pending], [HttpGet ?p1, HttpGet ?p2])"
    using gather_step.suspends[where i = 1 and urls = ?urls and ts = "[InFlight, Pending, Pending]"
        and rp = ?rp and evs = "[HttpGet ?p2]" and net = hello_server and tr = "[HttpGet ?p1]"] a
    by (simp add: fetch_begin_def)
  have s3: "gather_step ?rp hello_server ?urls
      ([InFlight, InFlight, Pending], [HttpGet ?p1, HttpGet ?p2])
      ([InFlight, InFlight, Finished (Inr None)], [HttpGet ?p1, HttpGet ?p2, LogWarning ?p3])"
    using gather_step.returns[where i = 2 and urls = ?urls and ts = "[InFlight, InFlight, Pending]"
        and rp = ?rp and evs = "[LogWarning ?p3]" and r = None and net = hello_server
        and tr = "[HttpGet ?p1, HttpGet ?p2]"] a
    by (simp add: fetch_begin_def)
  have r3: "gather_reach ?rp hello_server (page_urls ''https://example.com'' 3)
      ([InFlight, InFlight, Finished (Inr None)], [HttpGet ?p1, HttpGet ?p2, LogWarning ?p3])"
    unfolding u using gather_reach.step[OF gather_reach.step[OF gather_reach.step[OF r0 s1] s2] s3] .
  have c: "length (filter (can_fetch ?rp) (page_urls ''https://example.com'' 3)) = 2"
    unfolding u using a by simp
  have n: "in_flight [InFlight, InFlight, Finished (Inr None)] = 2"
    by (simp add: in_flight_def)
  show ?thesis
    using r3 c n in_flight_bounded_by_allowed_urls[OF r3] by blast
qed

subsection \<open>Target URLs\<close>

text \<open>
  Claim C8. For every base origin and every \<^verbatim>\<open>max_pages\<close> of at least one, the sequence of
  target URLs has \<^verbatim>\<open>max_pages\<close> elements, the element at place \<open>i\<close> is the base followed
  by \<^verbatim>\<open>/page/\<close> and the decimal numeral of \<open>i + 1\<close>, the elements are distinct, and
  every request of the fetch phase is for one of them.
\<close>

theorem page_urls_sequence:
  "1 \<le> max_pages \<Longrightarrow>
     length (page_urls base max_pages) = nat max_pages
     \<and> (\<forall>i<nat max_pages. page_urls base max_pages ! i = base @ ''/page/'' @ str_int (int i + 1))
     \<and> distinct (page_urls base max_pages)
     \<and> (\<forall>rp net ts tr u. gather_reach rp net (page_urls base max_pages) (ts, tr)
            \<and> HttpGet u \<in> set tr \<longrightarrow> u \<in> set (page_urls base max_pages))"
proof -
  have "\<forall>rp net ts tr u. gather_reach rp net (page_urls base max_pages) (ts, tr)
            \<and> HttpGet u \<in> set tr \<longrightarrow> u \<in> set (page_urls base max_pages)"
  proof (intro allI impI)
    fix rp net ts tr u
    assume "gather_reach rp net (page_urls base max_pages) (ts, tr) \<and> HttpGet u \<in> set tr"
    then show "u \<in> set (page_urls base max_pages)"
      using reach_invariant[of rp net "page_urls base max_pages" "(ts, tr)"] by simp
  qed
  then show ?thesis
    by (simp add: length_page_urls nth_page_urls distinct_page_urls)
qed

theorem page_urls_sequence_witness:
  "(1::int) \<le> 5
   \<and> page_urls ''https://example.com'' 5 =
       [''https://example.com/page/1'', ''https://example.com/page/2'',
        ''https://example.com/page/3'', ''https://example.com/page/4'',
        ''https://example.com/page/5'']
   \<and> length (page_urls ''https://example.com'' 5) = nat 5
   \<and> page_urls ''https://example.com'' 5 ! 2 = ''https://example.com'' @ ''/page/'' @ str_int (int 2 + 1)
   \<and> distinct (page_urls ''https://example.com'' 5)
   \<and> gather_reach policy_allowing hello_server (page_urls ''https://example.com'' 5)
        ([InFlight, Pending, Pending, Pending, Pending], [HttpGet ''https://example.com/page/1''])
   \<and> ''https://example.com/page/1'' \<in> set (page_urls ''https://example.com'' 5)"
proof -
  let ?rp = policy_allowing
  let ?p1 = "''https://example.com/page/1''"
  let ?urls = "[?p1, ''https://example.com/page/2'', ''https://example.com/page/3'',
      ''https://example.com/page/4'', ''https://example.com/page/5'']"
  let ?ts0 = "[Pending, Pending, Pending, Pending, Pending]"
  have u: "page_urls ''https://example.com'' 5 = ?urls"
    by (simp add: page_urls_def upto.simps str_int_def str_nat.simps digit_char_def)
  have a: "can_fetch ?rp ?p1"
    by (simp add: can_fetch_def policy_allowing_def)
  have r0: "gather_reach ?rp hello_server ?urls (?ts0, [])"
    using gather_reach.start[of ?rp hello_server ?urls] by (simp add: numeral_eq_Suc)
  have s1: "gather_step ?rp hello_server ?urls (?ts0, [])
      ([InFlight, Pending, Pending, Pending, Pending], [HttpGet ?p1])"
    using gather_step.suspends[where i = 0 and urls = ?urls and ts = ?ts0
        and rp = ?rp and evs = "[HttpGet ?p1]" and net = hello_server and tr = "[]"] a
    by (simp add: fetch_begin_def)
  have r1: "gather_reach ?rp hello_server (page_urls ''https://example.com'' 5)
      ([InFlight, Pending, Pending, Pending, Pending], [HttpGet ?p1])"
    unfolding u using gather_reach.step[OF r0 s1] .
  have h: "(1::int) \<le> 5" by simp
  note t = page_urls_sequence[OF h, of "''https://example.com''"]
  have "?p1 \<in> set (page_urls ''https://example.com'' 5)"
    using t[THEN conjunct2, THEN conjunct2, THEN conjunct2, rule_format,
        of ?rp hello_server "[InFlight, Pending, Pending, Pending, Pending]" "[HttpGet ?p1]" ?p1] r1
    by simp
  moreover have "page_urls ''https://example.com'' 5 ! 2
      = ''https://example.com'' @ ''/page/'' @ str_int (int 2 + 1)"
    using t[THEN conjunct2, THEN conjunct1, rule_format, of 2] by simp
  ultimately show ?thesis
    using h u r1 t[THEN conjunct1] t[THEN conjunct2, THEN conjunct2, THEN conjunct1]
    by blast
qed

subsection \<open>Store\<close>

text \<open>
  Claim C5. Upsert is keyed on the URL and the last writer wins: a table with at most one
  row for each URL keeps that property through every sequence of upserts; after the same
  item is upserted twice, the query for its URL returns one row, with its values; after
  two items with the same URL, the query returns one row, with the title and description
  of the second.
\<close>

theorem upsert_last_writer_wins:
  "distinct (map url (rows db)) \<Longrightarrow>
     distinct (map url (rows (foldl save_to_database db items)))
     \<and> select_by_url (save_to_database (save_to_database db a) a) (url a)
         = [(title a, description a)]
     \<and> select_by_url (save_to_database (save_to_database db a) (a\<lparr>title := t, description := d\<rparr>))
         (url a) = [(t, d)]"
  using distinct_foldl_save[of db items]
    select_save_same[of "save_to_database db a" a]
    select_save_same[of "save_to_database db a" "a\<lparr>title := t, description := d\<rparr>"]
  by simp

theorem upsert_last_writer_wins_witness:
  "distinct (map url (rows empty_database))
   \<and> distinct (map url (rows (foldl save_to_database empty_database
        [\<lparr>title = ''A'', description = ''a'', url = ''u1''\<rparr>,
         \<lparr>title = ''B'', description = ''b'', url = ''u2''\<rparr>,
         \<lparr>title = ''C'', description = ''c'', url = ''u1''\<rparr>])))
   \<and> rows (foldl save_to_database empty_database
        [\<lparr>title = ''A'', description = ''a'', url = ''u1''\<rparr>,
         \<lparr>title = ''B'', description = ''b'', url = ''u2''\<rparr>,
         \<lparr>title = ''C'', description = ''c'', url = ''u1''\<rparr>])
       = [\<lparr>title = ''B'', description = ''b'', url = ''u2'', rowid = 2\<rparr>,
          \<lparr>title = ''C'', description = ''c'', url = ''u1'', rowid = 3\<rparr>]
   \<and> select_by_url (save_to_database (save_to_database empty_database
          \<lparr>title = ''A'', description = ''a'', url = ''u1''\<rparr>)
          \<lparr>title = ''C'', description = ''c'', url = ''u1''\<rparr>) ''u1'' = [(''C'', ''c'')]"
proof -
  have h: "distinct (map url (rows empty_database))"
    by (simp add: empty_database_def)
  note t = upsert_last_writer_wins[OF h, where
      items = "[\<lparr>title = ''A'', description = ''a'', url = ''u1''\<rparr>,
        \<lparr>title = ''B'', description = ''b'', url = ''u2''\<rparr>,
        \<lparr>title = ''C'', description = ''c'', url = ''u1''\<rparr>]"
      and a = "\<lparr>title = ''A'', description = ''a'', url = ''u1''\<rparr>" and t = "''C''"
      and d = "''c''"]
  have r: "rows (foldl save_to_database empty_database
        [\<lparr>title = ''A'', description = ''a'', url = ''u1''\<rparr>,
         \<lparr>title = ''B'', description = ''b'', url = ''u2''\<rparr>,
         \<lparr>title = ''C'', description = ''c'', url = ''u1''\<rparr>])
       = [\<lparr>title = ''B'', description = ''b'', url = ''u2'', rowid = 2\<rparr>,
          \<lparr>title = ''C'', description = ''c'', url = ''u1'', rowid = 3\<rparr>]"
    by (simp add: empty_database_def save_to_database_def next_rowid_def)
  have "select_by_url (save_to_database (save_to_database empty_database
          \<lparr>title = ''A'', description = ''a'', url = ''u1''\<rparr>)
          \<lparr>title = ''C'', description = ''c'', url = ''u1''\<rparr>) ''u1'' = [(''C'', ''c'')]"
    using t[THEN conjunct2, THEN conjunct2] by simp
  then show ?thesis using h r t[THEN conjunct1] by blast
qed

subsection \<open>Empty bodies\<close>

text \<open>
  Claim C10. A URL whose request succeeds with the empty string as body is treated as a
  failed fetch: the run is the one in which that request failed with a client error, no
  returned item has that URL, and the rows stored under that URL are those from before the
  run, because the loop skips the empty string as it skips \<^verbatim>\<open>None\<close>.
\<close>

theorem empty_body_skipped:
  "http w u = Response status [] \<Longrightarrow>
     async_scrape w s m = async_scrape (w\<lparr>http := (http w)(u := ClientError)\<rparr>) s m
     \<and> (\<forall>items. fst (async_scrape w s m) = Inr items \<longrightarrow> u \<notin> set (map url items))
     \<and> select_by_url (snd (async_scrape w s m)) u = select_by_url (db_connection s) u
     \<and> scrape_loop parse_page ((u, Some []) # rest) all_data db
         = scrape_loop parse_page ((u, None) # rest) all_data db"
proof -
  assume h: "http w u = Response status []"
  have "async_scrape w s m = async_scrape (w\<lparr>http := (http w)(u := ClientError)\<rparr>) s m"
    using h by (rule async_scrape_empty_body_as_failure)
  moreover note async_scrape_empty_body_no_item[OF h, of s m]
  ultimately show ?thesis by simp
qed

theorem empty_body_skipped_witness:
  "http world_empty_body ''https://example.com/page/2'' = Response 200 []
   \<and> async_scrape world_empty_body example_scraper 2
       = (Inr [\<lparr>title = ''Hello'', description = [], url = ''https://example.com/page/1''\<rparr>],
          \<lparr>rows = [\<lparr>title = ''Hello'', description = [], url = ''https://example.com/page/1'',
                     rowid = 1\<rparr>], seq = 1\<rparr>)
   \<and> async_scrape world_empty_body example_scraper 2
       = async_scrape (world_empty_body\<lparr>http := (http world_empty_body)
            (''https://example.com/page/2'' := ClientError)\<rparr>) example_scraper 2
   \<and> select_by_url (snd (async_scrape world_empty_body example_scraper 2))
        ''https://example.com/page/2'' = []"
proof -
  let ?p2 = "''https://example.com/page/2''"
  have h: "http world_empty_body ?p2 = Response 200 []"
    by (simp add: world_empty_body_def)
  have u: "page_urls ''https://example.com'' 2 = [''https://example.com/page/1'', ?p2]"
    by (simp add: page_urls_def upto.simps str_int_def str_nat.simps digit_char_def)
  have e: "async_scrape world_empty_body example_scraper 2
       = (Inr [\<lparr>title = ''Hello'', description = [], url = ''https://example.com/page/1''\<rparr>],
          \<lparr>rows = [\<lparr>title = ''Hello'', description = [], url = ''https://example.com/page/1'',
                     rowid = 1\<rparr>], seq = 1\<rparr>)"
    by (simp add: async_scrape_def fetch_pages_def example_scraper_def u world_empty_body_def
        hello_server_def snd_async_fetch_page can_fetch_def policy_allowing_def
        heading_parser_def extract_data_def soup_find_def strip_def isspace_def
        save_to_database_def next_rowid_def empty_database_def)
  note t = empty_body_skipped[OF h, of example_scraper 2]
  have "select_by_url (snd (async_scrape world_empty_body example_scraper 2)) ?p2 = []"
    using t[THEN conjunct2, THEN conjunct2, THEN conjunct1]
    by (simp add: example_scraper_def select_by_url_def empty_database_def)
  then show ?thesis using h e t[THEN conjunct1] by blast
qed

subsection \<open>Responses with an error status\<close>

text \<open>
  Claim C3, evaluated where the code departs from it. The first of five pages answers
  with status 500 and an error page as body. \<^verbatim>\<open>async_fetch_page\<close> returns that body, the
  run ends with exit code 0, and the returned list has five items, the first of them made
  from the error page. The synchronous \<^verbatim>\<open>fetch_page\<close> returns \<^verbatim>\<open>None\<close> for the same
  response.
\<close>

theorem status_500_page_is_scraped:
  "snd (async_fetch_page policy_allowing (http world_500) ''https://example.com/page/1'')
     = Inr (Some ''Server Error'')
   \<and> snd (fetch_page policy_allowing (http world_500) ''https://example.com/page/1'') = Inr None
   \<and> exit_code (main world_500) = 0
   \<and> results (main world_500) =
       [\<lparr>title = ''Server Error'', description = [], url = ''https://example.com/page/1''\<rparr>,
        \<lparr>title = ''Hello'', description = [], url = ''https://example.com/page/2''\<rparr>,
        \<lparr>title = ''Hello'', description = [], url = ''https://example.com/page/3''\<rparr>,
        \<lparr>title = ''Hello'', description = [], url = ''https://example.com/page/4''\<rparr>,
        \<lparr>title = ''Hello'', description = [], url = ''https://example.com/page/5''\<rparr>]"
proof -
  have u: "page_urls ''https://example.com'' 5 =
      [''https://example.com/page/1'', ''https://example.com/page/2'',
       ''https://example.com/page/3'', ''https://example.com/page/4'',
       ''https://example.com/page/5'']"
    by (simp add: page_urls_def upto.simps str_int_def str_nat.simps digit_char_def)
  have i: "WebScraper_init world_500 ''https://example.com'' = Inr example_scraper"
    by (simp add: WebScraper_init_def world_500_def read_def RobotFileParser_init_def
        example_scraper_def policy_allowing_def setup_database_def)
  have a: "\<And>x. can_fetch policy_allowing x"
    by (simp add: can_fetch_def policy_allowing_def)
  have p: "fetch_pages world_500 example_scraper (page_urls ''https://example.com'' 5)
      = Inr [Some ''Server Error'', Some ''Hello'', Some ''Hello'', Some ''Hello'', Some ''Hello'']"
    unfolding u
    by (simp add: fetch_pages_def example_scraper_def snd_async_fetch_page a world_500_def
        hello_server_def)
  have x: "\<And>h v. extract_data (heading_parser h) v = Inr \<lparr>title = strip h, description = [], url = v\<rparr>"
    by (simp add: heading_parser_def extract_data_def soup_find_def)
  have s: "strip ''Server Error'' = ''Server Error''" "strip ''Hello'' = ''Hello''"
    by (simp_all add: strip_def isspace_def)
  have hp: "html_parser world_500 = heading_parser" "base_url example_scraper = ''https://example.com''"
    by (simp_all add: world_500_def example_scraper_def)
  have "fst (async_scrape world_500 example_scraper 5) = Inr
       [\<lparr>title = ''Server Error'', description = [], url = ''https://example.com/page/1''\<rparr>,
        \<lparr>title = ''Hello'', description = [], url = ''https://example.com/page/2''\<rparr>,
        \<lparr>title = ''Hello'', description = [], url = ''https://example.com/page/3''\<rparr>,
        \<lparr>title = ''Hello'', description = [], url = ''https://example.com/page/4''\<rparr>,
        \<lparr>title = ''Hello'', description = [], url = ''https://example.com/page/5''\<rparr>]"
    using p by (simp add: async_scrape_def hp u x s)
  then have "exit_code (main world_500) = 0 \<and> results (main world_500) =
       [\<lparr>title = ''Server Error'', description = [], url = ''https://example.com/page/1''\<rparr>,
        \<lparr>title = ''Hello'', description = [], url = ''https://example.com/page/2''\<rparr>,
        \<lparr>title = ''Hello'', description = [], url = ''https://example.com/page/3''\<rparr>,
        \<lparr>title = ''Hello'', description = [], url = ''https://example.com/page/4''\<rparr>,
        \<lparr>title = ''Hello'', description = [], url = ''https://example.com/page/5''\<rparr>]"
    by (simp add: main_def i)
  moreover have "snd (async_fetch_page policy_allowing (http world_500) ''https://example.com/page/1'')
     = Inr (Some ''Server Error'')"
    by (simp add: snd_async_fetch_page a world_500_def)
  moreover have "snd (fetch_page policy_allowing (http world_500) ''https://example.com/page/1'')
     = Inr None"
    by (simp add: fetch_page_def a world_500_def)
  ultimately show ?thesis by blast
qed

subsection \<open>Extraction\<close>

lemma extract_data_missing_fields:
  "soup_find ''h1'' [] soup = None \<Longrightarrow> soup_find ''meta'' [(''name'', ''description'')] soup = None
     \<Longrightarrow> extract_data soup u = Inr \<lparr>title = [], description = [], url = u\<rparr>"
  by (simp add: extract_data_def)

lemma extract_data_raises:
  "(\<exists>e. extract_data soup u = Inl e) \<longleftrightarrow>
     (\<exists>m. soup_find ''meta'' [(''name'', ''description'')] soup = Some m
        \<and> tag_attrs m ''content'' = None)"
  by (auto simp: extract_data_def Let_def split: option.splits)

text \<open>
  Claim C6, evaluated where the code departs from it. A page whose \<^verbatim>\<open>meta\<close> tag named
  \<^verbatim>\<open>description\<close> has no \<^verbatim>\<open>content\<close> attribute makes \<^verbatim>\<open>extract_data\<close> raise
  \<^verbatim>\<open>KeyError\<close>, and the run ends with exit code 1; a page with neither the heading nor the
  tag gives two empty strings.
\<close>

theorem extract_data_meta_without_content:
  "extract_data [Tag ''meta'' [''name'' \<mapsto> ''description''] []] ''https://example.com/page/1''
     = Inl (KeyError ''content'')
   \<and> extract_data [] ''https://example.com/page/1''
     = Inr \<lparr>title = [], description = [], url = ''https://example.com/page/1''\<rparr>
   \<and> fst (scrape_loop (\<lambda>h. [Tag ''meta'' [''name'' \<mapsto> ''description''] []])
        [(''https://example.com/page/1'', Some ''<meta name=description>'')] [] empty_database)
     = Inl (KeyError ''content'')"
  by (simp add: extract_data_def soup_find_def)

subsection \<open>Loading the policy\<close>




subsection \<open>CSV round trip\<close>

text \<open>
  Claim C7. For every list of items, the exported file starts with the header row
  \<^verbatim>\<open>title,description,url\<close>, the reader of the dialect reads it back without error as
  the header followed by one record for each item, in order, and the tuples of title,
  description and URL read back through the header are those of the list, as lists and
  hence as sets.
\<close>

theorem csv_round_trip:
  "take 23 (export_to_csv data) = ''title,description,url'' @ [CR, LF]
   \<and> reader (export_to_csv data) = Some (fieldnames # map dict_to_list data)
   \<and> csv_tuples (export_to_csv data) = Some (map item_tuple data)
   \<and> map_option set (csv_tuples (export_to_csv data)) = Some (item_tuple ` set data)
   \<and> inj item_tuple"
proof -
  have "take 23 (export_to_csv data) = ''title,description,url'' @ [CR, LF]"
    by (simp add: export_to_csv_def writerow_def fieldnames_def join_append_data_def
        double_quotes_def csv_special_def)
  moreover have "inj item_tuple"
    by (rule injI) (simp add: item_tuple_def)
  ultimately show ?thesis
    by (simp add: reader_export csv_tuples_export)
qed

theorem csv_round_trip_witness:
  "export_to_csv [\<lparr>title = ''a,b'', description = [CHR ''x'', DQUOTE, CR, LF, CHR ''y''], url = []\<rparr>]
     = ''title,description,url'' @ [CR, LF]
       @ [DQUOTE] @ ''a,b'' @ [DQUOTE, COMMA, DQUOTE, CHR ''x'', DQUOTE, DQUOTE, CR, LF, CHR ''y'',
          DQUOTE, COMMA, CR, LF]
   \<and> csv_tuples (''title,description,url'' @ [CR, LF]
       @ [DQUOTE] @ ''a,b'' @ [DQUOTE, COMMA, DQUOTE, CHR ''x'', DQUOTE, DQUOTE, CR, LF, CHR ''y'',
          DQUOTE, COMMA, CR, LF])
     = Some [(Some ''a,b'', Some [CHR ''x'', DQUOTE, CR, LF, CHR ''y''], Some [])]"
proof -
  let ?data = "[\<lparr>title = ''a,b'', description = [CHR ''x'', DQUOTE, CR, LF, CHR ''y''], url = []\<rparr>]"
  have e: "export_to_csv ?data
     = ''title,description,url'' @ [CR, LF]
       @ [DQUOTE] @ ''a,b'' @ [DQUOTE, COMMA, DQUOTE, CHR ''x'', DQUOTE, DQUOTE, CR, LF, CHR ''y'',
          DQUOTE, COMMA, CR, LF]"
    by (simp add: export_to_csv_def writerow_def fieldnames_def join_append_data_def
        double_quotes_def csv_special_def dict_to_list_def)
  have "csv_tuples (export_to_csv ?data)
      = Some [(Some ''a,b'', Some [CHR ''x'', DQUOTE, CR, LF, CHR ''y''], Some [])]"
    using csv_round_trip[of ?data, THEN conjunct2, THEN conjunct2, THEN conjunct1]
    by (simp add: item_tuple_def)
  then show ?thesis using e by simp
qed

end
